theory Spec2Isabelle
  imports Main "HOL-Library.Word"
begin

unbundle bit_operations_syntax

section \<open>Head parameters (pose\_head\_params.hpp)\<close>

type_synonym int16 = "16 word"
type_synonym int32 = "32 word"

text \<open>
  The three kernels of the repository differ only in the constants they are compiled
  with, so a head is described by the record of those constants.
\<close>

record head_config =
  IN_CH :: nat
  OUT_CH :: nat
  OUT_CH_PAD :: nat
  SHIFT :: nat

definition POSE3D_IN_CH :: nat where "POSE3D_IN_CH = 1152"
definition WORLD_IN_CH :: nat where "WORLD_IN_CH = 1152"
definition FLAG_IN_CH :: nat where "FLAG_IN_CH = 1152"

definition POSE3D_OUT_CH :: nat where "POSE3D_OUT_CH = 195"
definition WORLD_OUT_CH :: nat where "WORLD_OUT_CH = 117"
definition FLAG_OUT_CH :: nat where "FLAG_OUT_CH = 1"

definition POSE3D_OUT_CH_PAD :: nat where "POSE3D_OUT_CH_PAD = POSE3D_OUT_CH + 5"
definition WORLD_OUT_CH_PAD :: nat where "WORLD_OUT_CH_PAD = WORLD_OUT_CH + 3"
definition FLAG_OUT_CH_PAD :: nat where "FLAG_OUT_CH_PAD = FLAG_OUT_CH + 7"

definition POSE3D_ROW_STRIDE :: nat where "POSE3D_ROW_STRIDE = 1 + POSE3D_IN_CH"
definition WORLD_ROW_STRIDE :: nat where "WORLD_ROW_STRIDE = 1 + WORLD_IN_CH"
definition FLAG_ROW_STRIDE :: nat where "FLAG_ROW_STRIDE = 1 + FLAG_IN_CH"

definition POSE3D_SHIFT :: nat where "POSE3D_SHIFT = 15"
definition WORLD_SHIFT :: nat where "WORLD_SHIFT = 15"
definition FLAG_SHIFT :: nat where "FLAG_SHIFT = 15"

definition pose3d_config :: head_config where
  "pose3d_config = \<lparr>IN_CH = POSE3D_IN_CH, OUT_CH = POSE3D_OUT_CH,
     OUT_CH_PAD = POSE3D_OUT_CH_PAD, SHIFT = POSE3D_SHIFT\<rparr>"

definition world_config :: head_config where
  "world_config = \<lparr>IN_CH = WORLD_IN_CH, OUT_CH = WORLD_OUT_CH,
     OUT_CH_PAD = WORLD_OUT_CH_PAD, SHIFT = WORLD_SHIFT\<rparr>"

definition flag_config :: head_config where
  "flag_config = \<lparr>IN_CH = FLAG_IN_CH, OUT_CH = FLAG_OUT_CH,
     OUT_CH_PAD = FLAG_OUT_CH_PAD, SHIFT = FLAG_SHIFT\<rparr>"

text \<open>
  \<^verbatim>\<open>static inline int16_t sat_q15(int32_t x)\<close>: two comparisons on the signed value,
  then the narrowing cast.
\<close>

definition sat_q15 :: "int32 \<Rightarrow> int16" where
  "sat_q15 x =
     (if 32767 < sint x then 32767
      else if sint x < - 32768 then - 32768
      else scast x)"

section \<open>The head kernel (pose3d\_head\_kernel.cpp, world\_head\_kernel.cpp, flag\_head\_kernel.cpp)\<close>

text \<open>
  The kernel talks to three channels: the feature window, the weight stream and the
  output stream. A channel is the list of values not yet read (inputs) or the list of
  values written so far, oldest first (output). The static array \<^verbatim>\<open>pose3d_feat_buf\<close>
  is part of the state because it survives from one invocation to the next. The field
  \<open>trace\<close> records every channel access in program order; no instruction of the
  kernel reads it.
\<close>

datatype event = RdFeat | RdWeight | WrOut

record kstate =
  feat_win :: "int16 list"
  w_stream :: "int16 list"
  out_stream :: "int16 list"
  feat_buf :: "int16 list"
  trace :: "event list"

text \<open>
  A read from an empty channel never returns: the kernel stays suspended in the state
  it has reached. That outcome is \<open>Inl\<close> of that state; \<open>Inr\<close> is a normal return.
\<close>

definition window_readincr :: "kstate \<Rightarrow> kstate + int16 \<times> kstate" where
  "window_readincr s =
     (case feat_win s of
        [] \<Rightarrow> Inl s
      | v # rest \<Rightarrow> Inr (v, s\<lparr>feat_win := rest, trace := trace s @ [RdFeat]\<rparr>))"

definition readincr :: "kstate \<Rightarrow> kstate + int16 \<times> kstate" where
  "readincr s =
     (case w_stream s of
        [] \<Rightarrow> Inl s
      | v # rest \<Rightarrow> Inr (v, s\<lparr>w_stream := rest, trace := trace s @ [RdWeight]\<rparr>))"

definition writeincr :: "int16 \<Rightarrow> kstate \<Rightarrow> kstate" where
  "writeincr v s = s\<lparr>out_stream := out_stream s @ [v], trace := trace s @ [WrOut]\<rparr>"

text \<open>Loop 1: \<^verbatim>\<open>for (int i = 0; i < IN_CH; ++i) feat_buf[i] = window_readincr(feat_win);\<close>\<close>

function load_loop :: "nat \<Rightarrow> nat \<Rightarrow> kstate \<Rightarrow> kstate + kstate" where
  "load_loop n i s =
     (if i < n then
        (case window_readincr s of
           Inl b \<Rightarrow> Inl b
         | Inr (v, s') \<Rightarrow> load_loop n (Suc i) (s'\<lparr>feat_buf := (feat_buf s')[i := v]\<rparr>))
      else Inr s)"
  by pat_completeness auto
termination
  by (relation "measure (\<lambda>(n, i, s). n - i)") auto

text \<open>
  The inner loop of loop 2: the accumulator is an \<^verbatim>\<open>int32_t\<close>, both factors are
  sign-extended to 32 bits before the product, and \<^verbatim>\<open>+=\<close> adds in 32 bits. The
  32-bit sum is two's complement: beyond the range it wraps, as the target's adder does
  (the C++ standard gives such a sum no meaning).
\<close>

function mac_loop :: "nat \<Rightarrow> nat \<Rightarrow> int32 \<Rightarrow> kstate \<Rightarrow> kstate + int32 \<times> kstate" where
  "mac_loop n ic acc s =
     (if ic < n then
        (let f = feat_buf s ! ic in
         case readincr s of
           Inl b \<Rightarrow> Inl b
         | Inr (w, s') \<Rightarrow> mac_loop n (Suc ic) (acc + scast f * scast w) s')
      else Inr (acc, s))"
  by pat_completeness auto
termination
  by (relation "measure (\<lambda>(n, ic, acc, s). n - ic)") auto

text \<open>
  Loop 2: one bias and \<open>IN_CH\<close> weights per output; \<^verbatim>\<open>acc >>= SHIFT\<close> is the
  arithmetic shift of the signed accumulator. The shift count is 15 in each of the three
  kernels. C++ defines the shift of an \<^verbatim>\<open>int32_t\<close> only for counts below 32, so
  \<open>signed_drop_bit\<close> is what the kernel computes when \<open>SHIFT < 32\<close>, and every statement
  about the values written assumes \<open>SHIFT < 32\<close>; for a larger count the model's value
  is not the code's.
\<close>

function fc_loop :: "head_config \<Rightarrow> nat \<Rightarrow> kstate \<Rightarrow> kstate + kstate" where
  "fc_loop cfg oc s =
     (if oc < OUT_CH cfg then
        (case readincr s of
           Inl b \<Rightarrow> Inl b
         | Inr (bias, s1) \<Rightarrow>
             (case mac_loop (IN_CH cfg) 0 (scast bias) s1 of
                Inl b \<Rightarrow> Inl b
              | Inr (acc, s2) \<Rightarrow>
                  fc_loop cfg (Suc oc)
                    (writeincr (sat_q15 (signed_drop_bit (SHIFT cfg) acc)) s2)))
      else Inr s)"
  by pat_completeness auto
termination
  by (relation "measure (\<lambda>(cfg, oc, s). OUT_CH cfg - oc)") auto

text \<open>Loop 3: \<^verbatim>\<open>for (int oc = OUT_CH; oc < OUT_CH_PAD; ++oc) writeincr(out_stream, 0);\<close>\<close>

function pad_loop :: "head_config \<Rightarrow> nat \<Rightarrow> kstate \<Rightarrow> kstate" where
  "pad_loop cfg oc s =
     (if oc < OUT_CH_PAD cfg then pad_loop cfg (Suc oc) (writeincr 0 s) else s)"
  by pat_completeness auto
termination
  by (relation "measure (\<lambda>(cfg, oc, s). OUT_CH_PAD cfg - oc)") auto

declare load_loop.simps [simp del]
declare mac_loop.simps [simp del]
declare fc_loop.simps [simp del]
declare pad_loop.simps [simp del]

text \<open>The three phases, separately and in sequence.\<close>

definition load_phase :: "head_config \<Rightarrow> kstate \<Rightarrow> kstate + kstate" where
  "load_phase cfg s = load_loop (IN_CH cfg) 0 s"

definition compute_phase :: "head_config \<Rightarrow> kstate \<Rightarrow> kstate + kstate" where
  "compute_phase cfg s = fc_loop cfg 0 s"

definition padding_phase :: "head_config \<Rightarrow> kstate \<Rightarrow> kstate" where
  "padding_phase cfg s = pad_loop cfg (OUT_CH cfg) s"

definition head_kernel :: "head_config \<Rightarrow> kstate \<Rightarrow> kstate + kstate" where
  "head_kernel cfg s =
     (case load_phase cfg s of
        Inl b \<Rightarrow> Inl b
      | Inr s1 \<Rightarrow>
          (case compute_phase cfg s1 of
             Inl b \<Rightarrow> Inl b
           | Inr s2 \<Rightarrow> Inr (padding_phase cfg s2)))"

definition pose3d_head_kernel :: "kstate \<Rightarrow> kstate + kstate" where
  "pose3d_head_kernel = head_kernel pose3d_config"

definition world_head_kernel :: "kstate \<Rightarrow> kstate + kstate" where
  "world_head_kernel = head_kernel world_config"

definition flag_head_kernel :: "kstate \<Rightarrow> kstate + kstate" where
  "flag_head_kernel = head_kernel flag_config"

text \<open>The state an invocation ends in, returned or suspended.\<close>

definition reached :: "kstate + kstate \<Rightarrow> kstate" where
  "reached r = (case r of Inl b \<Rightarrow> b | Inr s \<Rightarrow> s)"

text \<open>
  What one invocation appended to the output stream: the output stream of the state it
  ended in, without the values that were there before.
\<close>

definition emitted :: "kstate \<Rightarrow> kstate + kstate \<Rightarrow> int16 list" where
  "emitted s r = drop (length (out_stream s)) (out_stream (reached r))"

text \<open>
  Two states look alike to the kernel and to an observer of its output when they hold
  the same unread features, the same unread weights and the same scratch array, and
  their output streams agree beyond the first \<open>n1\<close>, respectively \<open>n2\<close>, values.
\<close>

definition same_view :: "nat \<Rightarrow> nat \<Rightarrow> kstate \<Rightarrow> kstate \<Rightarrow> bool" where
  "same_view n1 n2 s1 s2 \<longleftrightarrow>
     feat_win s1 = feat_win s2 \<and> w_stream s1 = w_stream s2 \<and> feat_buf s1 = feat_buf s2
     \<and> n1 \<le> length (out_stream s1) \<and> n2 \<le> length (out_stream s2)
     \<and> drop n1 (out_stream s1) = drop n2 (out_stream s2)"

subsection \<open>Closed forms of the loops\<close>

text \<open>
  What the kernel computes for output \<open>oc\<close>, in the kernel's own 32-bit arithmetic: the
  accumulator after the inner loop, when \<open>f\<close> is the scratch array and \<open>w\<close> the weight
  stream at the start of the compute phase, and the value written for it. Both sums wrap
  as the accumulator does; they say what the code does, not what the specification asks.
\<close>

definition kernel_row_acc :: "nat \<Rightarrow> int16 list \<Rightarrow> int16 list \<Rightarrow> nat \<Rightarrow> int32" where
  "kernel_row_acc n f w oc =
     scast (w ! (oc * (1 + n)))
     + sum_list (map (\<lambda>ic. scast (f ! ic) * scast (w ! (oc * (1 + n) + 1 + ic))) [0..<n])"

definition kernel_fc_value :: "head_config \<Rightarrow> int16 list \<Rightarrow> int16 list \<Rightarrow> nat \<Rightarrow> int16" where
  "kernel_fc_value cfg f w oc =
     sat_q15 (signed_drop_bit (SHIFT cfg) (kernel_row_acc (IN_CH cfg) f w oc))"

text \<open>
  What the inner loop adds to the accumulator when it starts at index \<open>ic\<close> and runs
  \<open>d\<close> times on the weights \<open>w\<close> still in the stream.
\<close>

definition mac_sum :: "int16 list \<Rightarrow> int16 list \<Rightarrow> nat \<Rightarrow> nat \<Rightarrow> int32" where
  "mac_sum f w ic d = sum_list (map (\<lambda>k. scast (f ! (ic + k)) * scast (w ! k)) [0..<d])"

text \<open>The accesses of one output row.\<close>

definition row_events :: "nat \<Rightarrow> event list" where
  "row_events n = replicate (1 + n) RdWeight @ [WrOut]"

subsection \<open>The fully-connected layer as the specification words it\<close>

text \<open>
  The specification computes over the integers. Its saturation (section 4.1) returns the
  maximum above the range, the minimum below it and the value itself inside.
\<close>

definition spec_saturate_q15 :: "int \<Rightarrow> int" where
  "spec_saturate_q15 x = (if x > 32767 then 32767 else if x < - 32768 then - 32768 else x)"

text \<open>
  The weight channel \<open>w\<close> is read row by row, a row being the bias followed by \<open>n\<close>
  weights: the bias of row \<open>oc\<close> is element \<open>oc * (1 + n)\<close> and its weight \<open>ic\<close> is
  element \<open>oc * (1 + n) + 1 + ic\<close>. \<open>spec_row_sum n f w oc k\<close> is the exact integer
  \<open>bias + feature[0] * w[0] + ... + feature[k - 1] * w[k - 1]\<close> of row \<open>oc\<close>; with
  \<open>k = n\<close> it is the sum of the whole row. The value of output \<open>oc\<close> is that sum shifted
  right arithmetically by \<open>SHIFT\<close> bits, which on an integer is the division by
  \<open>2 ^ SHIFT\<close> rounding down, and then saturated.
\<close>

definition spec_row_sum :: "nat \<Rightarrow> int16 list \<Rightarrow> int16 list \<Rightarrow> nat \<Rightarrow> nat \<Rightarrow> int" where
  "spec_row_sum n f w oc k =
     sint (w ! (oc * (1 + n)))
     + sum_list (map (\<lambda>ic. sint (f ! ic) * sint (w ! (oc * (1 + n) + 1 + ic))) [0..<k])"

definition spec_output :: "head_config \<Rightarrow> int16 list \<Rightarrow> int16 list \<Rightarrow> nat \<Rightarrow> int" where
  "spec_output cfg f w oc =
     spec_saturate_q15 (spec_row_sum (IN_CH cfg) f w oc (IN_CH cfg) div 2 ^ SHIFT cfg)"

text \<open>
  The exact sum of one row as the inner loop meets it, with no bound on its size: bias
  plus the first \<open>k\<close> products, \<open>w\<close> being the weights that follow the bias.
\<close>

definition spec_exact_acc :: "int16 \<Rightarrow> int16 list \<Rightarrow> int16 list \<Rightarrow> nat \<Rightarrow> int" where
  "spec_exact_acc bias f w k =
     sint bias + sum_list (map (\<lambda>ic. sint (f ! ic) * sint (w ! ic)) [0..<k])"

text \<open>The known-vector scenario of the specification.\<close>

definition known_config :: head_config where
  "known_config = \<lparr>IN_CH = 2, OUT_CH = 1, OUT_CH_PAD = 2, SHIFT = 0\<rparr>"

definition known_state :: kstate where
  "known_state = \<lparr>feat_win = [10, 20], w_stream = [100, 2, 3], out_stream = [],
     feat_buf = [0, 0], trace = []\<rparr>"

text \<open>Two features and two weights of \<open>-32768\<close> each, bias \<open>0\<close>.\<close>

definition overflow_state :: kstate where
  "overflow_state = \<lparr>feat_win = [], w_stream = [- 32768, - 32768], out_stream = [],
     feat_buf = [- 32768, - 32768], trace = []\<rparr>"

text \<open>
  The same row given to the whole kernel: one output, no padding, no shift, two features
  of \<open>-32768\<close> and the weight row \<open>[0, -32768, -32768]\<close>.
\<close>

definition overflow_config :: head_config where
  "overflow_config = \<lparr>IN_CH = 2, OUT_CH = 1, OUT_CH_PAD = 1, SHIFT = 0\<rparr>"

definition overflow_input :: kstate where
  "overflow_input = \<lparr>feat_win = [- 32768, - 32768], w_stream = [0, - 32768, - 32768],
     out_stream = [], feat_buf = [0, 0], trace = []\<rparr>"

section \<open>The movers (feat\_mover.cpp, output\_mover.cpp)\<close>

type_synonym ap_uint128 = "128 word"
type_synonym uint = "32 word"

text \<open>
  A mover works on a buffer in memory, reached through the pointer \<^verbatim>\<open>mem\<close>, and on
  an \<^verbatim>\<open>hls::stream\<close>, the list of words written and not yet read. The index
  \<^verbatim>\<open>start_addr + i\<close> is an \<^verbatim>\<open>unsigned int\<close> sum and wraps at \<open>2 ^ 32\<close>. An access
  outside the buffer has no defined result in the source and is the fault
  \<open>Out_of_bounds\<close> here; a read from an empty stream never returns and is the fault
  \<open>Stream_empty\<close>.
\<close>

datatype mover_fault = Out_of_bounds | Stream_empty

record mover_state =
  mem :: "ap_uint128 list"
  strm :: "ap_uint128 list"

function feat_mover_loop ::
  "uint \<Rightarrow> uint \<Rightarrow> uint \<Rightarrow> mover_state \<Rightarrow> mover_fault + mover_state" where
  "feat_mover_loop num_words start_addr i s =
     (if i < num_words then
        (let a = unat (start_addr + i) in
         if a < length (mem s) then
           feat_mover_loop num_words start_addr (i + 1) (s\<lparr>strm := strm s @ [mem s ! a]\<rparr>)
         else Inl Out_of_bounds)
      else Inr s)"
  by pat_completeness auto
termination
proof (relation "measure (\<lambda>(num_words, start_addr, i, s). unat num_words - unat i)")
  show "wf (measure (\<lambda>(num_words :: uint, start_addr :: uint, i :: uint, s :: mover_state).
     unat num_words - unat i))"
    by simp
next
  fix num_words start_addr i :: uint and s :: mover_state and a :: nat
  assume "i < num_words"
  then have lt: "unat i < unat num_words" by (rule unat_mono)
  moreover have "unat num_words < 2 ^ LENGTH(32)" by (rule unsigned_less)
  ultimately have "unat i + unat (1 :: uint) < 2 ^ LENGTH(32)" by simp
  then have "unat (i + 1) = unat i + unat (1 :: uint)" by (rule unat_add_lem [THEN iffD1])
  with lt
  show "((num_words, start_addr, i + 1, s\<lparr>strm := strm s @ [mem s ! a]\<rparr>),
          (num_words, start_addr, i, s))
        \<in> measure (\<lambda>(num_words, start_addr, i, s). unat num_words - unat i)"
    by simp
qed

definition feat_mover :: "mover_state \<Rightarrow> uint \<Rightarrow> uint \<Rightarrow> mover_fault + mover_state" where
  "feat_mover s num_words start_addr = feat_mover_loop num_words start_addr 0 s"

function output_mover_loop ::
  "uint \<Rightarrow> uint \<Rightarrow> uint \<Rightarrow> mover_state \<Rightarrow> mover_fault + mover_state" where
  "output_mover_loop num_words start_addr i s =
     (if i < num_words then
        (case strm s of
           [] \<Rightarrow> Inl Stream_empty
         | v # rest \<Rightarrow>
             (let a = unat (start_addr + i) in
              if a < length (mem s) then
                output_mover_loop num_words start_addr (i + 1)
                  (s\<lparr>strm := rest, mem := (mem s)[a := v]\<rparr>)
              else Inl Out_of_bounds))
      else Inr s)"
  by pat_completeness auto
termination
proof (relation "measure (\<lambda>(num_words, start_addr, i, s). unat num_words - unat i)")
  show "wf (measure (\<lambda>(num_words :: uint, start_addr :: uint, i :: uint, s :: mover_state).
     unat num_words - unat i))"
    by simp
next
  fix num_words start_addr i :: uint and s :: mover_state and a :: nat
    and v :: ap_uint128 and rest :: "ap_uint128 list"
  assume "i < num_words"
  then have lt: "unat i < unat num_words" by (rule unat_mono)
  moreover have "unat num_words < 2 ^ LENGTH(32)" by (rule unsigned_less)
  ultimately have "unat i + unat (1 :: uint) < 2 ^ LENGTH(32)" by simp
  then have "unat (i + 1) = unat i + unat (1 :: uint)" by (rule unat_add_lem [THEN iffD1])
  with lt
  show "((num_words, start_addr, i + 1, s\<lparr>strm := rest, mem := (mem s)[a := v]\<rparr>),
          (num_words, start_addr, i, s))
        \<in> measure (\<lambda>(num_words, start_addr, i, s). unat num_words - unat i)"
    by simp
qed

definition output_mover :: "mover_state \<Rightarrow> uint \<Rightarrow> uint \<Rightarrow> mover_fault + mover_state" where
  "output_mover s num_words start_addr = output_mover_loop num_words start_addr 0 s"

declare feat_mover_loop.simps [simp del]
declare output_mover_loop.simps [simp del]

text \<open>
  A buffer of \<open>2 ^ 32 + 1\<close> words, all zero but the last, and a destination of the same
  length that is all zero: the smallest buffers in which an index can wrap.
\<close>

definition wide_mem :: "ap_uint128 list" where
  "wide_mem = replicate 4294967296 0 @ [1]"

definition wide_dst :: "ap_uint128 list" where
  "wide_dst = replicate 4294967297 0"

section \<open>The host (host\_overlay.cpp)\<close>

type_synonym byte = "8 word"

text \<open>
  The files the host can open: \<open>contents\<close> gives the bytes of every file that opens for
  reading, \<open>writable\<close> tells which paths open for writing. An exception of the source is
  a \<open>Runtime_error\<close> with its message; \<open>Bad_access\<close> stands for a read or write outside
  the array a pointer was given for.
\<close>

record filesystem =
  contents :: "string \<Rightarrow> byte list option"
  writable :: "string \<Rightarrow> bool"

datatype host_fault = Runtime_error string | Bad_access

text \<open>Decimal output of a \<^verbatim>\<open>long\<close>, as \<^verbatim>\<open>std::to_string\<close> and \<^verbatim>\<open>operator<<\<close> print it.\<close>

definition digit_chars :: string where
  "digit_chars = ''0123456789''"

function nat_digits :: "nat \<Rightarrow> string" where
  "nat_digits n =
     (if n < 10 then [digit_chars ! n]
      else nat_digits (n div 10) @ [digit_chars ! (n mod 10)])"
  by pat_completeness auto
termination
  by (relation "measure id") auto

declare nat_digits.simps [simp del]

definition to_string :: "int \<Rightarrow> string" where
  "to_string k = (if k < 0 then CHR ''-'' # nat_digits (nat (- k)) else nat_digits (nat k))"

definition newline :: char where
  "newline = CHR 0x0A"

text \<open>
  \<^verbatim>\<open>save_txt\<close>: the loop writes \<^verbatim>\<open>static_cast<long>(buf[i])\<close> and a newline for
  every \<open>i < elems\<close>; the result is the text of the file.
\<close>

function save_txt_loop :: "int16 list \<Rightarrow> nat \<Rightarrow> nat \<Rightarrow> string \<Rightarrow> host_fault + string" where
  "save_txt_loop buf elems i fout =
     (if i < elems then
        (if i < length buf then
           save_txt_loop buf elems (Suc i) (fout @ to_string (sint (buf ! i)) @ [newline])
         else Inl Bad_access)
      else Inr fout)"
  by pat_completeness auto
termination
  by (relation "measure (\<lambda>(buf, elems, i, fout). elems - i)") auto

declare save_txt_loop.simps [simp del]

definition save_txt :: "filesystem \<Rightarrow> string \<Rightarrow> int16 list \<Rightarrow> nat \<Rightarrow> host_fault + string" where
  "save_txt fs path buf elems =
     (if \<not> writable fs path then Inl (Runtime_error (''Failed to open output file: '' @ path))
      else save_txt_loop buf elems 0 [])"

text \<open>One line of the text file, and the number of lines of a text.\<close>

definition txt_line :: "int16 \<Rightarrow> string" where
  "txt_line v = to_string (sint v) @ [newline]"

definition count_lines :: "string \<Rightarrow> nat" where
  "count_lines txt = length (filter (\<lambda>c. c = newline) txt)"

text \<open>
  The bytes of an \<^verbatim>\<open>int16_t\<close> array on the little-endian host, which is what
  \<^verbatim>\<open>fin.read(reinterpret_cast<char *>(buf), needed)\<close> overwrites.
\<close>

definition le16 :: "byte \<Rightarrow> byte \<Rightarrow> int16" where
  "le16 lo hi = ucast lo OR push_bit 8 (ucast hi)"

fun decode_le16 :: "byte list \<Rightarrow> int16 list" where
  "decode_le16 (lo # hi # rest) = le16 lo hi # decode_le16 rest"
| "decode_le16 _ = []"

definition bytes_of :: "int16 \<Rightarrow> byte list" where
  "bytes_of v = [ucast v, ucast (drop_bit 8 v)]"

definition encode_le16 :: "int16 list \<Rightarrow> byte list" where
  "encode_le16 buf = concat (map bytes_of buf)"

definition store_bytes :: "byte list \<Rightarrow> int16 list \<Rightarrow> int16 list option" where
  "store_bytes bs buf =
     (if length bs \<le> 2 * length buf
      then Some (decode_le16 (bs @ drop (length bs) (encode_le16 buf)))
      else None)"

definition sizeof_int16 :: nat where
  "sizeof_int16 = 2"

text \<open>
  \<^verbatim>\<open>load_bin<int16_t>\<close>. \<open>fsize\<close> is the size \<^verbatim>\<open>tellg\<close> reports at the end of the
  file; \<open>needed\<close> is the 64-bit product \<^verbatim>\<open>elems * sizeof(T)\<close> read as a signed
  \<^verbatim>\<open>std::streamsize\<close>. The result is \<open>Inr\<close> of the buffer after a normal return, or
  \<open>Inl\<close> of the exception and the buffer as the exception leaves it. Once the size check
  has passed, the file holds the bytes \<^verbatim>\<open>read\<close> asks for, so the last check of the
  source can fail only for a negative count, which extracts nothing.
\<close>

definition load_bin ::
  "filesystem \<Rightarrow> string \<Rightarrow> int16 list \<Rightarrow> nat \<Rightarrow> host_fault \<times> int16 list + int16 list" where
  "load_bin fs path buf elems =
     (case contents fs path of
        None \<Rightarrow> Inl (Runtime_error (''Failed to open binary file: '' @ path), buf)
      | Some bytes \<Rightarrow>
          (let fsize = int (length bytes);
               needed = sint (word_of_nat (elems * sizeof_int16) :: 64 word)
           in if fsize < needed then
                Inl (Runtime_error (''File too small: '' @ path @ '' (have '' @ to_string fsize
                       @ '' bytes, need '' @ to_string needed @ '')''), buf)
              else if needed < 0 then
                Inl (Runtime_error (''Failed to read all data from: '' @ path), buf)
              else
                (case store_bytes (take (nat needed) bytes) buf of
                   None \<Rightarrow> Inl (Bad_access, buf)
                 | Some buf' \<Rightarrow> Inr buf')))"

text \<open>The sizes \<^verbatim>\<open>main\<close> computes for each head, and the files it names.\<close>

datatype head = Pose3d | World | Flag

fun config_of :: "head \<Rightarrow> head_config" where
  "config_of Pose3d = pose3d_config"
| "config_of World = world_config"
| "config_of Flag = flag_config"

definition pose3d_feat_elems :: nat where "pose3d_feat_elems = POSE3D_IN_CH"
definition world_feat_elems :: nat where "world_feat_elems = WORLD_IN_CH"
definition flag_feat_elems :: nat where "flag_feat_elems = FLAG_IN_CH"

definition pose3d_w_elems :: nat where "pose3d_w_elems = POSE3D_OUT_CH * POSE3D_ROW_STRIDE"
definition world_w_elems :: nat where "world_w_elems = WORLD_OUT_CH * WORLD_ROW_STRIDE"
definition flag_w_elems :: nat where "flag_w_elems = FLAG_OUT_CH * FLAG_ROW_STRIDE"

definition pose3d_out_elems :: nat where "pose3d_out_elems = POSE3D_OUT_CH"
definition world_out_elems :: nat where "world_out_elems = WORLD_OUT_CH"
definition flag_out_elems :: nat where "flag_out_elems = FLAG_OUT_CH"

fun out_elems :: "head \<Rightarrow> nat" where
  "out_elems Pose3d = pose3d_out_elems"
| "out_elems World = world_out_elems"
| "out_elems Flag = flag_out_elems"

fun out_path :: "string \<Rightarrow> head \<Rightarrow> string" where
  "out_path data_dir Pose3d = data_dir @ ''/pose3d_out_hw.txt''"
| "out_path data_dir World = data_dir @ ''/world_out_hw.txt''"
| "out_path data_dir Flag = data_dir @ ''/flag_out_hw.txt''"

text \<open>
  The output step of \<^verbatim>\<open>main\<close> for one head: \<open>out\<close> is the mapped output buffer, which
  \<^verbatim>\<open>main\<close> allocates with \<open>out_elems\<close> elements.
\<close>

definition save_head_output ::
  "filesystem \<Rightarrow> string \<Rightarrow> head \<Rightarrow> int16 list \<Rightarrow> host_fault + string" where
  "save_head_output fs data_dir h out = save_txt fs (out_path data_dir h) out (out_elems h)"

definition open_fs :: filesystem where
  "open_fs = \<lparr>contents = (\<lambda>p. None), writable = (\<lambda>p. True)\<rparr>"

definition small_fs :: filesystem where
  "small_fs = \<lparr>contents = (\<lambda>p. if p = ''f.bin'' then Some [1, 0, 2] else None),
     writable = (\<lambda>p. False)\<rparr>"

definition exact_fs :: filesystem where
  "exact_fs = \<lparr>contents = (\<lambda>p. if p = ''f.bin'' then Some [1, 0, 255, 255, 7] else None),
     writable = (\<lambda>p. False)\<rparr>"

section \<open>Saturation\<close>

lemma sint_scast_in_range:
  fixes x :: int32
  assumes "- 32768 \<le> sint x" and "sint x \<le> 32767"
  shows "sint (scast x :: int16) = sint x"
proof -
  have "sint (scast x :: int16) = signed_take_bit 15 (sint x)"
    by (simp only: signed_scast_eq) simp
  also have "\<dots> = sint x"
    using assms by (simp add: signed_take_bit_int_eq_self_iff)
  finally show ?thesis .
qed

text \<open>
  C4. For every 32-bit signed \<open>x\<close>, \<open>sat_q15 x\<close> is \<open>x\<close> clamped to
  \<open>[-32768, 32767]\<close>: the maximum above the range, the minimum below it, \<open>x\<close> itself
  inside; and the four boundary values of the specification.
\<close>

theorem sat_q15_clamps:
  "sint (sat_q15 x) =
     (if 32767 < sint x then 32767 else if sint x < - 32768 then - 32768 else sint x)
   \<and> sat_q15 32767 = 32767 \<and> sat_q15 32768 = 32767
   \<and> sat_q15 (- 32768) = - 32768 \<and> sat_q15 (- 32769) = - 32768"
  by (simp add: sat_q15_def sint_scast_in_range)

section \<open>The kernel: what a complete invocation computes\<close>


lemma readincr_Cons:
  "w_stream s = v # rest \<Longrightarrow>
   readincr s = Inr (v, s\<lparr>w_stream := rest, trace := trace s @ [RdWeight]\<rparr>)"
  by (simp add: readincr_def)

lemma readincr_Nil: "w_stream s = [] \<Longrightarrow> readincr s = Inl s"
  by (simp add: readincr_def)

lemma window_readincr_Cons:
  "feat_win s = v # rest \<Longrightarrow>
   window_readincr s = Inr (v, s\<lparr>feat_win := rest, trace := trace s @ [RdFeat]\<rparr>)"
  by (simp add: window_readincr_def)

lemma window_readincr_Nil: "feat_win s = [] \<Longrightarrow> window_readincr s = Inl s"
  by (simp add: window_readincr_def)

lemma mac_sum_Suc:
  "mac_sum f (v # ws) ic (Suc d) = scast (f ! ic) * scast v + mac_sum f ws (Suc ic) d"
  by (simp add: mac_sum_def map_upt_Suc del: upt_Suc)

lemma mac_loop_returns:
  "d = n - ic \<Longrightarrow> d \<le> length (w_stream s) \<Longrightarrow>
   mac_loop n ic acc s =
     Inr (acc + mac_sum (feat_buf s) (w_stream s) ic d,
          s\<lparr>w_stream := drop d (w_stream s), trace := trace s @ replicate d RdWeight\<rparr>)"
proof (induction d arbitrary: ic acc s)
  case 0
  then show ?case by (simp add: mac_loop.simps mac_sum_def)
next
  case (Suc d)
  from Suc.prems obtain v ws where w: "w_stream s = v # ws"
    by (cases "w_stream s") auto
  let ?s = "s\<lparr>w_stream := ws, trace := trace s @ [RdWeight]\<rparr>"
  have lt: "ic < n" using Suc.prems by simp
  have d: "d = n - Suc ic" using Suc.prems by simp
  have len: "d \<le> length (w_stream ?s)" using Suc.prems w by simp
  have "mac_loop n ic acc s =
          mac_loop n (Suc ic) (acc + scast (feat_buf s ! ic) * scast v) ?s"
    using lt by (subst mac_loop.simps) (simp add: readincr_Cons [OF w])
  also note Suc.IH [OF d len]
  finally show ?case
    by (simp add: w mac_sum_Suc add.assoc replicate_app_Cons_same)
qed


lemma load_loop_returns:
  "d = n - i \<Longrightarrow> d \<le> length (feat_win s) \<Longrightarrow> i + d \<le> length (feat_buf s) \<Longrightarrow>
   load_loop n i s =
     Inr (s\<lparr>feat_win := drop d (feat_win s),
            feat_buf := take i (feat_buf s) @ take d (feat_win s) @ drop (i + d) (feat_buf s),
            trace := trace s @ replicate d RdFeat\<rparr>)"
proof (induction d arbitrary: i s)
  case 0
  then show ?case by (simp add: load_loop.simps)
next
  case (Suc d)
  from Suc.prems obtain v rest where w: "feat_win s = v # rest"
    by (cases "feat_win s") auto
  let ?s = "s\<lparr>feat_win := rest, trace := trace s @ [RdFeat], feat_buf := (feat_buf s)[i := v]\<rparr>"
  have lt: "i < n" using Suc.prems by simp
  have il: "i < length (feat_buf s)" using Suc.prems by simp
  have d: "d = n - Suc i" using Suc.prems by simp
  have len: "d \<le> length (feat_win ?s)" using Suc.prems w by simp
  have len2: "Suc i + d \<le> length (feat_buf ?s)" using Suc.prems by simp
  have "load_loop n i s = load_loop n (Suc i) ?s"
    using lt by (subst load_loop.simps) (simp add: window_readincr_Cons [OF w])
  also note Suc.IH [OF d len len2]
  finally show ?case
    using il by (simp add: w replicate_app_Cons_same take_Suc_conv_app_nth)
qed

lemma pad_loop_eq:
  "d = OUT_CH_PAD cfg - oc \<Longrightarrow>
   pad_loop cfg oc s =
     s\<lparr>out_stream := out_stream s @ replicate d 0, trace := trace s @ replicate d WrOut\<rparr>"
proof (induction d arbitrary: oc s)
  case 0
  then show ?case by (simp add: pad_loop.simps)
next
  case (Suc d)
  have lt: "oc < OUT_CH_PAD cfg" using Suc.prems by simp
  have d: "d = OUT_CH_PAD cfg - Suc oc" using Suc.prems by simp
  have "pad_loop cfg oc s = pad_loop cfg (Suc oc) (writeincr 0 s)"
    using lt by (subst pad_loop.simps) simp
  also note Suc.IH [OF d]
  finally show ?case
    by (simp add: writeincr_def replicate_app_Cons_same)
qed

lemma kernel_row_acc_0: "kernel_row_acc n f (b # rest) 0 = scast b + mac_sum f rest 0 n"
  by (simp add: kernel_row_acc_def mac_sum_def)

lemma kernel_row_acc_drop:
  assumes "1 + n \<le> length w"
  shows "kernel_row_acc n f (drop (1 + n) w) k = kernel_row_acc n f w (Suc k)"
proof -
  have b: "drop (1 + n) w ! (k * (1 + n) + j) = w ! (Suc k * (1 + n) + j)" for j
  proof -
    have "drop (1 + n) w ! (k * (1 + n) + j) = w ! ((1 + n) + (k * (1 + n) + j))"
      using assms by (intro nth_drop)
    also have "(1 + n) + (k * (1 + n) + j) = Suc k * (1 + n) + j" by simp
    finally show ?thesis .
  qed
  have c: "k * (1 + n) + 1 + ic = k * (1 + n) + (1 + ic)" for ic by simp
  have d: "Suc k * (1 + n) + 1 + ic = Suc k * (1 + n) + (1 + ic)" for ic by simp
  show ?thesis
    unfolding kernel_row_acc_def c d b b [of 0, simplified add_0_right] ..
qed

lemma fc_loop_returns:
  "oc + d = OUT_CH cfg \<Longrightarrow> d * (1 + IN_CH cfg) \<le> length (w_stream s) \<Longrightarrow>
   fc_loop cfg oc s =
     Inr (s\<lparr>w_stream := drop (d * (1 + IN_CH cfg)) (w_stream s),
            out_stream := out_stream s @ map (kernel_fc_value cfg (feat_buf s) (w_stream s)) [0..<d],
            trace := trace s @ concat (replicate d (row_events (IN_CH cfg)))\<rparr>)"
proof (induction d arbitrary: oc s)
  case 0
  then show ?case by (simp add: fc_loop.simps)
next
  case (Suc d)
  let ?n = "IN_CH cfg"
  from Suc.prems obtain b rest where w: "w_stream s = b # rest"
    by (cases "w_stream s") auto
  have lt: "oc < OUT_CH cfg" using Suc.prems(1) by simp
  have d: "Suc oc + d = OUT_CH cfg" using Suc.prems(1) by simp
  have lr: "?n + d * (1 + ?n) \<le> length rest" using Suc.prems(2) w by simp
  let ?s1 = "s\<lparr>w_stream := rest, trace := trace s @ [RdWeight]\<rparr>"
  let ?acc = "scast b + mac_sum (feat_buf s) rest 0 ?n"
  let ?s2 = "?s1\<lparr>w_stream := drop ?n rest, trace := trace ?s1 @ replicate ?n RdWeight\<rparr>"
  let ?s3 = "writeincr (sat_q15 (signed_drop_bit (SHIFT cfg) ?acc)) ?s2"
  have mac: "mac_loop ?n 0 (scast b) ?s1 = Inr (?acc, ?s2)"
    using lr by (subst mac_loop_returns [where d = "?n"]) simp_all
  have step: "fc_loop cfg oc s = fc_loop cfg (Suc oc) ?s3"
    using lt by (subst fc_loop.simps) (simp add: readincr_Cons [OF w] mac)
  have len: "d * (1 + ?n) \<le> length (w_stream ?s3)"
    using lr by (simp add: writeincr_def)
  have v0: "kernel_fc_value cfg (feat_buf s) (b # rest) 0 = sat_q15 (signed_drop_bit (SHIFT cfg) ?acc)"
    by (simp add: kernel_fc_value_def kernel_row_acc_0)
  have vs: "map (kernel_fc_value cfg (feat_buf s) (drop ?n rest)) [0..<d]
          = map (\<lambda>k. kernel_fc_value cfg (feat_buf s) (w_stream s) (Suc k)) [0..<d]"
  proof (rule map_cong [OF refl])
    fix k assume "k \<in> set [0..<d]"
    then have "k < d" by simp
    then have "Suc k \<le> d" by simp
    then have "Suc k * (1 + ?n) \<le> d * (1 + ?n)" by (rule mult_le_mono1)
    have "1 + ?n \<le> length (w_stream s)"
      using lr w by simp
    from kernel_row_acc_drop [OF this, of "feat_buf s" k]
    show "kernel_fc_value cfg (feat_buf s) (drop ?n rest) k = kernel_fc_value cfg (feat_buf s) (w_stream s) (Suc k)"
      by (simp add: kernel_fc_value_def w)
  qed
  show ?case
    unfolding step Suc.IH [OF d len]
    by (simp add: writeincr_def v0 vs map_upt_Suc row_events_def w
        replicate_app_Cons_same add_ac del: upt_Suc)
qed



lemma kernel_row_acc_take:
  "kernel_row_acc n (take n f) w oc = kernel_row_acc n f w oc"
proof -
  have "map (\<lambda>ic. scast (take n f ! ic) * (scast (w ! (oc * (1 + n) + 1 + ic)) :: int32)) [0..<n]
      = map (\<lambda>ic. scast (f ! ic) * scast (w ! (oc * (1 + n) + 1 + ic))) [0..<n]"
    by (rule map_cong [OF refl]) simp
  then show ?thesis unfolding kernel_row_acc_def by (rule arg_cong)
qed

lemma kernel_fc_value_take: "kernel_fc_value cfg (take (IN_CH cfg) f) w oc = kernel_fc_value cfg f w oc"
  by (simp add: kernel_fc_value_def kernel_row_acc_take)

lemma load_phase_returns:
  assumes "IN_CH cfg \<le> length (feat_win s)" and "length (feat_buf s) = IN_CH cfg"
  shows "load_phase cfg s =
     Inr (s\<lparr>feat_win := drop (IN_CH cfg) (feat_win s),
            feat_buf := take (IN_CH cfg) (feat_win s),
            trace := trace s @ replicate (IN_CH cfg) RdFeat\<rparr>)"
  unfolding load_phase_def
  using assms by (subst load_loop_returns [where d = "IN_CH cfg"]) simp_all

lemma compute_phase_returns:
  assumes "OUT_CH cfg * (1 + IN_CH cfg) \<le> length (w_stream s)"
  shows "compute_phase cfg s =
     Inr (s\<lparr>w_stream := drop (OUT_CH cfg * (1 + IN_CH cfg)) (w_stream s),
            out_stream := out_stream s @ map (kernel_fc_value cfg (feat_buf s) (w_stream s)) [0..<OUT_CH cfg],
            trace := trace s @ concat (replicate (OUT_CH cfg) (row_events (IN_CH cfg)))\<rparr>)"
  unfolding compute_phase_def
  using assms by (subst fc_loop_returns [where d = "OUT_CH cfg"]) simp_all

lemma padding_phase_eq:
  "padding_phase cfg s =
     s\<lparr>out_stream := out_stream s @ replicate (OUT_CH_PAD cfg - OUT_CH cfg) 0,
       trace := trace s @ replicate (OUT_CH_PAD cfg - OUT_CH cfg) WrOut\<rparr>"
  unfolding padding_phase_def by (rule pad_loop_eq) simp

lemma head_kernel_returns:
  assumes "IN_CH cfg \<le> length (feat_win s)"
    and "OUT_CH cfg * (1 + IN_CH cfg) \<le> length (w_stream s)"
    and "length (feat_buf s) = IN_CH cfg"
  shows "head_kernel cfg s =
     Inr (s\<lparr>feat_win := drop (IN_CH cfg) (feat_win s),
            feat_buf := take (IN_CH cfg) (feat_win s),
            w_stream := drop (OUT_CH cfg * (1 + IN_CH cfg)) (w_stream s),
            out_stream := out_stream s
               @ map (kernel_fc_value cfg (feat_win s) (w_stream s)) [0..<OUT_CH cfg]
               @ replicate (OUT_CH_PAD cfg - OUT_CH cfg) 0,
            trace := trace s @ replicate (IN_CH cfg) RdFeat
               @ concat (replicate (OUT_CH cfg) (row_events (IN_CH cfg)))
               @ replicate (OUT_CH_PAD cfg - OUT_CH cfg) WrOut\<rparr>)"
  unfolding head_kernel_def
  using assms
  by (simp add: load_phase_returns compute_phase_returns padding_phase_eq kernel_fc_value_take)

lemma upt_2: "[0..<2] = [0, Suc 0]"
  by (simp add: numeral_2_eq_2)

text \<open>
  C3. For every head configuration with \<open>OUT_CH \<le> OUT_CH_PAD\<close> and input channels that
  are long enough, one invocation returns and appends exactly \<open>OUT_CH_PAD\<close> values: the
  first \<open>OUT_CH\<close> are the values computed from the weight data, the remaining
  \<open>OUT_CH_PAD - OUT_CH\<close> are zero. It takes exactly \<open>OUT_CH * (1 + IN_CH)\<close> values from
  the weight channel, and the padding phase leaves the feature and the weight channel of
  any state \<open>t\<close> as they are.
\<close>

theorem head_kernel_padding:
  assumes "IN_CH cfg \<le> length (feat_win s)"
    and "OUT_CH cfg * (1 + IN_CH cfg) \<le> length (w_stream s)"
    and "length (feat_buf s) = IN_CH cfg"
    and "OUT_CH cfg \<le> OUT_CH_PAD cfg"
  shows "\<exists>s'. head_kernel cfg s = Inr s'
     \<and> length (emitted s (Inr s')) = OUT_CH_PAD cfg
     \<and> take (OUT_CH cfg) (emitted s (Inr s'))
          = map (kernel_fc_value cfg (feat_win s) (w_stream s)) [0..<OUT_CH cfg]
     \<and> drop (OUT_CH cfg) (emitted s (Inr s')) = replicate (OUT_CH_PAD cfg - OUT_CH cfg) 0
     \<and> w_stream s' = drop (OUT_CH cfg * (1 + IN_CH cfg)) (w_stream s)
     \<and> length (w_stream s') + OUT_CH cfg * (1 + IN_CH cfg) = length (w_stream s)
     \<and> feat_win (padding_phase cfg t) = feat_win t
     \<and> w_stream (padding_phase cfg t) = w_stream t"
  using assms
  by (simp add: head_kernel_returns emitted_def reached_def padding_phase_eq)

theorem head_kernel_padding_witness:
  "IN_CH known_config \<le> length (feat_win known_state)
   \<and> OUT_CH known_config * (1 + IN_CH known_config) \<le> length (w_stream known_state)
   \<and> length (feat_buf known_state) = IN_CH known_config
   \<and> OUT_CH known_config \<le> OUT_CH_PAD known_config
   \<and> (\<exists>s'. head_kernel known_config known_state = Inr s'
         \<and> length (emitted known_state (Inr s')) = 2
         \<and> drop 1 (emitted known_state (Inr s')) = [0]
         \<and> w_stream s' = [])"
proof -
  have h1: "IN_CH known_config \<le> length (feat_win known_state)"
    and h2: "OUT_CH known_config * (1 + IN_CH known_config) \<le> length (w_stream known_state)"
    and h3: "length (feat_buf known_state) = IN_CH known_config"
    and h4: "OUT_CH known_config \<le> OUT_CH_PAD known_config"
    by (simp_all add: known_config_def known_state_def)
  from head_kernel_padding [OF h1 h2 h3 h4, of known_state]
  obtain s' where k: "head_kernel known_config known_state = Inr s'"
    and l: "length (emitted known_state (Inr s')) = OUT_CH_PAD known_config"
    and d: "drop (OUT_CH known_config) (emitted known_state (Inr s'))
              = replicate (OUT_CH_PAD known_config - OUT_CH known_config) 0"
    and w: "w_stream s' = drop (OUT_CH known_config * (1 + IN_CH known_config)) (w_stream known_state)"
    by blast
  have "length (emitted known_state (Inr s')) = 2"
    using l by (simp add: known_config_def)
  moreover have "drop 1 (emitted known_state (Inr s')) = [0]"
    using d by (simp add: known_config_def)
  moreover have "w_stream s' = []"
    using w by (simp add: known_config_def known_state_def)
  ultimately show ?thesis
    using h1 h2 h3 h4 k by blast
qed

section \<open>The accumulator and the exact sum\<close>

lemma scast_mult_int32:
  "(scast (a :: int16) :: int32) * scast (b :: int16) = word_of_int (sint a * sint b)"
  by (simp only: scast_eq of_int_mult)

lemma mac_sum_snoc:
  "mac_sum f w 0 (Suc k) = mac_sum f w 0 k + scast (f ! k) * scast (w ! k)"
  by (simp add: mac_sum_def)

lemma spec_exact_acc_Suc:
  "spec_exact_acc bias f w (Suc k) = spec_exact_acc bias f w k + sint (f ! k) * sint (w ! k)"
  by (simp add: spec_exact_acc_def)

lemma acc_is_wrapped_exact:
  "(scast bias :: int32) + mac_sum f w 0 n = word_of_int (spec_exact_acc bias f w n)"
proof (induction n)
  case 0
  have "mac_sum f w 0 0 = 0" by (simp add: mac_sum_def)
  moreover have "spec_exact_acc bias f w 0 = sint bias" by (simp add: spec_exact_acc_def)
  ultimately show ?case by (simp only: add_0_right scast_eq)
next
  case (Suc n)
  have "(scast bias :: int32) + mac_sum f w 0 (Suc n)
      = (scast bias + mac_sum f w 0 n) + scast (f ! n) * scast (w ! n)"
    by (simp only: mac_sum_snoc add.assoc)
  also have "\<dots> = word_of_int (spec_exact_acc bias f w n) + word_of_int (sint (f ! n) * sint (w ! n))"
    by (simp only: Suc.IH scast_mult_int32)
  also have "\<dots> = word_of_int (spec_exact_acc bias f w (Suc n))"
    by (simp only: spec_exact_acc_Suc of_int_add)
  finally show ?case .
qed

lemma sint_word_of_int_int32:
  assumes "- (2 ^ 31) \<le> x" and "x < 2 ^ 31"
  shows "sint (word_of_int x :: int32) = x"
proof -
  have "sint (word_of_int x :: int32) = signed_take_bit 31 x"
    by (simp add: sint_sbintrunc')
  also have "\<dots> = x"
    using assms by (simp add: signed_take_bit_int_eq_self_iff)
  finally show ?thesis .
qed

text \<open>
  C2, as amended. If bias plus the first \<open>k\<close> products lies in the signed 32-bit range
  for every \<open>k \<le> n\<close>, the inner loop returns with an accumulator whose value is the
  exact integer \<open>bias + sum of feature[ic] * w[ic]\<close>.
\<close>

theorem mac_loop_exact_in_range:
  assumes "n \<le> length (w_stream s)"
    and "\<forall>k\<le>n. - (2 ^ 31) \<le> spec_exact_acc bias (feat_buf s) (w_stream s) k
              \<and> spec_exact_acc bias (feat_buf s) (w_stream s) k < 2 ^ 31"
  shows "\<exists>acc s'. mac_loop n 0 (scast bias) s = Inr (acc, s')
     \<and> sint acc = spec_exact_acc bias (feat_buf s) (w_stream s) n"
proof -
  have r: "- (2 ^ 31) \<le> spec_exact_acc bias (feat_buf s) (w_stream s) n"
      "spec_exact_acc bias (feat_buf s) (w_stream s) n < 2 ^ 31"
    using assms(2) by auto
  have "mac_loop n 0 (scast bias) s =
     Inr (scast bias + mac_sum (feat_buf s) (w_stream s) 0 n,
          s\<lparr>w_stream := drop n (w_stream s), trace := trace s @ replicate n RdWeight\<rparr>)"
    using assms(1) by (subst mac_loop_returns [where d = n]) simp_all
  moreover have "sint (scast bias + mac_sum (feat_buf s) (w_stream s) 0 n :: int32)
      = spec_exact_acc bias (feat_buf s) (w_stream s) n"
    unfolding acc_is_wrapped_exact by (rule sint_word_of_int_int32 [OF r])
  ultimately show ?thesis by blast
qed

lemma le_2_cases: "k \<le> (2::nat) \<Longrightarrow> k = 0 \<or> k = 1 \<or> k = 2"
  by arith

theorem mac_loop_exact_in_range_witness:
  "(2::nat) \<le> length (w_stream (known_state\<lparr>w_stream := [2, 3], feat_buf := [10, 20]\<rparr>))
   \<and> spec_exact_acc 100 [10, 20] [2, 3] 0 = 100
   \<and> spec_exact_acc 100 [10, 20] [2, 3] 1 = 120
   \<and> spec_exact_acc 100 [10, 20] [2, 3] 2 = 180
   \<and> (\<exists>acc s'. mac_loop 2 0 (scast (100 :: int16))
           (known_state\<lparr>w_stream := [2, 3], feat_buf := [10, 20]\<rparr>) = Inr (acc, s')
         \<and> sint acc = 180)"
proof -
  have e0: "spec_exact_acc 100 [10, 20] [2, 3] 0 = 100"
    and e1: "spec_exact_acc 100 [10, 20] [2, 3] 1 = 120"
    and e2: "spec_exact_acc 100 [10, 20] [2, 3] 2 = 180"
    by (simp_all add: spec_exact_acc_def upt_2)
  have h: "\<forall>k\<le>2. - (2 ^ 31) \<le> spec_exact_acc 100 [10, 20] [2, 3] k
              \<and> spec_exact_acc 100 [10, 20] [2, 3] k < 2 ^ 31"
    using e0 e1 e2 by (auto dest!: le_2_cases simp del: One_nat_def)
  have "\<exists>acc s'. mac_loop 2 0 (scast (100 :: int16))
           (known_state\<lparr>w_stream := [2, 3], feat_buf := [10, 20]\<rparr>) = Inr (acc, s')
         \<and> sint acc = 180"
    using h mac_loop_exact_in_range [of 2 "known_state\<lparr>w_stream := [2, 3], feat_buf := [10, 20]\<rparr>" 100]
    by (simp add: known_state_def e2)
  then show ?thesis
    using e0 e1 e2 by (simp add: known_state_def del: One_nat_def)
qed

lemma ov1: "mac_sum [- 32768, - 32768] [- 32768, - 32768] 0 2 = - 2147483648"
  by (simp add: mac_sum_def upt_2)

lemma ov2: "spec_exact_acc 0 [- 32768, - 32768] [- 32768, - 32768] 2 = 2147483648"
  by (simp add: spec_exact_acc_def upt_2)

lemma ov3: "mac_loop 2 0 (scast (0 :: int16)) overflow_state
     = Inr (scast (0 :: int16) + mac_sum (feat_buf overflow_state) (w_stream overflow_state) 0 2,
         overflow_state\<lparr>w_stream := drop 2 (w_stream overflow_state),
            trace := trace overflow_state @ replicate 2 RdWeight\<rparr>)"
  by (rule mac_loop_returns) (simp_all add: overflow_state_def)

lemma replicate_2: "replicate 2 x = [x, x]"
  by (simp add: numeral_2_eq_2)

text \<open>
  C2 as stated fails: with two features and two weights of \<open>-32768\<close> and bias \<open>0\<close> the
  exact sum is \<open>2147483648\<close>, which no \<^verbatim>\<open>int32_t\<close> holds; the accumulator is
  \<open>-2147483648\<close>.
\<close>

theorem mac_loop_overflow:
  "mac_loop 2 0 (scast (0 :: int16)) overflow_state
     = Inr (- 2147483648, overflow_state\<lparr>w_stream := [], trace := [RdWeight, RdWeight]\<rparr>)
   \<and> sint (- 2147483648 :: int32) = - 2147483648
   \<and> spec_exact_acc 0 (feat_buf overflow_state) (w_stream overflow_state) 2 = 2147483648"
  unfolding ov3
  by (simp add: overflow_state_def ov1 ov2 replicate_2)

section \<open>Order of the channel accesses\<close>

lemma load_loop_trace:
  "d = n - i \<Longrightarrow>
   \<exists>k. trace (reached (load_loop n i s)) = trace s @ replicate k RdFeat \<and> k \<le> d
     \<and> (isl (load_loop n i s) \<or> k = d)"
proof (induction d arbitrary: i s)
  case 0
  then have "load_loop n i s = Inr s" by (simp add: load_loop.simps)
  then show ?case by (simp add: reached_def)
next
  case (Suc d)
  have lt: "i < n" using Suc.prems by simp
  show ?case
  proof (cases "feat_win s")
    case Nil
    then have "load_loop n i s = Inl s"
      using lt by (subst load_loop.simps) (simp add: window_readincr_Nil)
    then show ?thesis by (simp add: reached_def)
  next
    case (Cons v rest)
    let ?s = "s\<lparr>feat_win := rest, trace := trace s @ [RdFeat], feat_buf := (feat_buf s)[i := v]\<rparr>"
    have step: "load_loop n i s = load_loop n (Suc i) ?s"
      using lt by (subst load_loop.simps) (simp add: window_readincr_Cons [OF Cons])
    have d: "d = n - Suc i" using Suc.prems by simp
    from Suc.IH [OF d, of ?s] obtain k
      where "trace (reached (load_loop n (Suc i) ?s)) = trace ?s @ replicate k RdFeat"
        and "k \<le> d" and "isl (load_loop n (Suc i) ?s) \<or> k = d"
      by blast
    then have "trace (reached (load_loop n i s)) = trace s @ replicate (Suc k) RdFeat
        \<and> Suc k \<le> Suc d \<and> (isl (load_loop n i s) \<or> Suc k = Suc d)"
      unfolding step by (simp add: replicate_app_Cons_same)
    then show ?thesis by blast
  qed
qed

lemma mac_loop_trace:
  "d = n - ic \<Longrightarrow>
   \<exists>rest. trace (reached (map_sum id snd (mac_loop n ic acc s))) = trace s @ rest
     \<and> RdFeat \<notin> set rest"
proof (induction d arbitrary: ic acc s)
  case 0
  then have "mac_loop n ic acc s = Inr (acc, s)" by (simp add: mac_loop.simps)
  then show ?case by (simp add: reached_def)
next
  case (Suc d)
  have lt: "ic < n" using Suc.prems by simp
  show ?case
  proof (cases "w_stream s")
    case Nil
    then have "mac_loop n ic acc s = Inl s"
      using lt by (subst mac_loop.simps) (simp add: readincr_Nil)
    then show ?thesis by (simp add: reached_def)
  next
    case (Cons v rest)
    let ?s = "s\<lparr>w_stream := rest, trace := trace s @ [RdWeight]\<rparr>"
    let ?a = "acc + scast (feat_buf s ! ic) * scast v"
    have step: "mac_loop n ic acc s = mac_loop n (Suc ic) ?a ?s"
      using lt by (subst mac_loop.simps) (simp add: readincr_Cons [OF Cons])
    have d: "d = n - Suc ic" using Suc.prems by simp
    from Suc.IH [OF d, of ?a ?s] obtain r
      where "trace (reached (map_sum id snd (mac_loop n (Suc ic) ?a ?s))) = trace ?s @ r"
        and "RdFeat \<notin> set r"
      by blast
    then have "trace (reached (map_sum id snd (mac_loop n ic acc s))) = trace s @ (RdWeight # r)
        \<and> RdFeat \<notin> set (RdWeight # r)"
      unfolding step by simp
    then show ?thesis by blast
  qed
qed

lemma fc_loop_trace:
  "d = OUT_CH cfg - oc \<Longrightarrow>
   \<exists>rest. trace (reached (fc_loop cfg oc s)) = trace s @ rest \<and> RdFeat \<notin> set rest"
proof (induction d arbitrary: oc s)
  case 0
  then have "fc_loop cfg oc s = Inr s" by (simp add: fc_loop.simps)
  then show ?case by (simp add: reached_def)
next
  case (Suc d)
  have lt: "oc < OUT_CH cfg" using Suc.prems by simp
  show ?case
  proof (cases "w_stream s")
    case Nil
    then have "fc_loop cfg oc s = Inl s"
      using lt by (subst fc_loop.simps) (simp add: readincr_Nil)
    then show ?thesis by (simp add: reached_def)
  next
    case (Cons b rest)
    let ?s1 = "s\<lparr>w_stream := rest, trace := trace s @ [RdWeight]\<rparr>"
    from mac_loop_trace [OF refl, of "IN_CH cfg" 0 "scast b" ?s1] obtain r1
      where m: "trace (reached (map_sum id snd (mac_loop (IN_CH cfg) 0 (scast b) ?s1))) = trace ?s1 @ r1"
        and n1: "RdFeat \<notin> set r1"
      by blast
    show ?thesis
    proof (cases "mac_loop (IN_CH cfg) 0 (scast b) ?s1")
      case (Inl blk)
      then have "fc_loop cfg oc s = Inl blk"
        using lt by (subst fc_loop.simps) (simp add: readincr_Cons [OF Cons])
      moreover have "trace blk = trace s @ (RdWeight # r1)"
        using m Inl by (simp add: reached_def)
      ultimately have "trace (reached (fc_loop cfg oc s)) = trace s @ (RdWeight # r1)
          \<and> RdFeat \<notin> set (RdWeight # r1)"
        using n1 by (simp add: reached_def)
      then show ?thesis by blast
    next
      case (Inr p)
      obtain a s2 where p: "p = (a, s2)" by (cases p)
      let ?s3 = "writeincr (sat_q15 (signed_drop_bit (SHIFT cfg) a)) s2"
      have step: "fc_loop cfg oc s = fc_loop cfg (Suc oc) ?s3"
        using lt by (subst fc_loop.simps) (simp add: readincr_Cons [OF Cons] Inr p)
      have t2: "trace s2 = trace s @ (RdWeight # r1)"
        using m Inr p by (simp add: reached_def)
      have d: "d = OUT_CH cfg - Suc oc" using Suc.prems by simp
      from Suc.IH [OF d, of ?s3] obtain r
        where "trace (reached (fc_loop cfg (Suc oc) ?s3)) = trace ?s3 @ r" and "RdFeat \<notin> set r"
        by blast
      then have "trace (reached (fc_loop cfg oc s)) = trace s @ (RdWeight # r1 @ WrOut # r)
          \<and> RdFeat \<notin> set (RdWeight # r1 @ WrOut # r)"
        unfolding step using n1 by (simp add: writeincr_def t2)
      then show ?thesis by blast
    qed
  qed
qed

text \<open>
  C9. In every invocation, whether it returns or stays suspended on an empty channel,
  the accesses it has made are \<open>k\<close> reads of the feature window followed by accesses
  among which there is no read of the feature window; \<open>k\<close> is at most \<open>IN_CH\<close>, and
  if the weight stream was read at all then \<open>k = IN_CH\<close>: all the feature reads come
  before the first weight read.
\<close>

theorem features_before_weights:
  "\<exists>k rest. trace (reached (head_kernel cfg s)) = trace s @ replicate k RdFeat @ rest
     \<and> k \<le> IN_CH cfg \<and> RdFeat \<notin> set rest \<and> (RdWeight \<in> set rest \<longrightarrow> k = IN_CH cfg)"
proof -
  from load_loop_trace [OF refl, of "IN_CH cfg" 0 s] obtain k
    where tl: "trace (reached (load_phase cfg s)) = trace s @ replicate k RdFeat"
      and kl: "k \<le> IN_CH cfg" and kk: "isl (load_phase cfg s) \<or> k = IN_CH cfg"
    unfolding load_phase_def by auto
  show ?thesis
  proof (cases "load_phase cfg s")
    case (Inl b)
    then have "trace (reached (head_kernel cfg s)) = trace s @ replicate k RdFeat @ []"
      using tl by (simp add: head_kernel_def reached_def)
    with kl show ?thesis by (intro exI [of _ k] exI [of _ "[]"]) simp
  next
    case (Inr s1)
    then have k: "k = IN_CH cfg" using kk by simp
    have t1: "trace s1 = trace s @ replicate k RdFeat"
      using tl Inr by (simp add: reached_def)
    from fc_loop_trace [OF refl, of cfg 0 s1] obtain r
      where tc: "trace (reached (compute_phase cfg s1)) = trace s1 @ r" and nr: "RdFeat \<notin> set r"
      unfolding compute_phase_def by blast
    show ?thesis
    proof (cases "compute_phase cfg s1")
      case (Inl b)
      then have "trace (reached (head_kernel cfg s)) = trace s @ replicate k RdFeat @ r"
        using tc t1 \<open>load_phase cfg s = Inr s1\<close> by (simp add: head_kernel_def reached_def)
      with kl nr k show ?thesis by blast
    next
      case (Inr s2)
      let ?p = "replicate (OUT_CH_PAD cfg - OUT_CH cfg) WrOut"
      have "trace (reached (head_kernel cfg s)) = trace s @ replicate k RdFeat @ (r @ ?p)"
        using tc t1 Inr \<open>load_phase cfg s = Inr s1\<close>
        by (simp add: head_kernel_def reached_def padding_phase_eq)
      moreover have "RdFeat \<notin> set (r @ ?p)" using nr by simp
      ultimately show ?thesis using kl k by blast
    qed
  qed
qed


lemma known_run:
  "head_kernel known_config known_state = Inr
     (known_state\<lparr>feat_win := [], feat_buf := [10, 20], w_stream := [],
        out_stream := [180, 0],
        trace := [RdFeat, RdFeat, RdWeight, RdWeight, RdWeight, WrOut, WrOut]\<rparr>)"
  by (subst head_kernel_returns)
    (simp_all add: known_config_def known_state_def kernel_fc_value_def kernel_row_acc_def
      sat_q15_def row_events_def upt_2 numeral_2_eq_2)

theorem features_before_weights_witness:
  "\<exists>k rest. trace (reached (head_kernel known_config known_state)) = replicate k RdFeat @ rest
     \<and> RdWeight \<in> set rest \<and> k = 2"
proof -
  from features_before_weights [of known_config known_state] obtain k rest
    where t: "trace (reached (head_kernel known_config known_state))
                = trace known_state @ replicate k RdFeat @ rest"
      and i: "RdWeight \<in> set rest \<longrightarrow> k = IN_CH known_config"
    by blast
  have e: "trace (reached (head_kernel known_config known_state))
             = [RdFeat, RdFeat, RdWeight, RdWeight, RdWeight, WrOut, WrOut]"
    by (simp add: known_run reached_def)
  have "RdWeight \<in> set (trace (reached (head_kernel known_config known_state)))"
    unfolding e by simp
  then have w: "RdWeight \<in> set rest"
    unfolding t by (auto simp: known_state_def)
  with i have "k = 2" by (simp add: known_config_def)
  with t w show ?thesis by (auto simp: known_state_def)
qed

section \<open>The scratch array carries nothing from one invocation to the next\<close>

lemma load_loop_starves:
  "d = n - i \<Longrightarrow> length (feat_win s) < d \<Longrightarrow>
   \<exists>b. load_loop n i s = Inl b \<and> out_stream b = out_stream s"
proof (induction d arbitrary: i s)
  case 0
  then show ?case by simp
next
  case (Suc d)
  have lt: "i < n" using Suc.prems by simp
  show ?case
  proof (cases "feat_win s")
    case Nil
    then have "load_loop n i s = Inl s"
      using lt by (subst load_loop.simps) (simp add: window_readincr_Nil)
    then show ?thesis by simp
  next
    case (Cons v rest)
    let ?s = "s\<lparr>feat_win := rest, trace := trace s @ [RdFeat], feat_buf := (feat_buf s)[i := v]\<rparr>"
    have step: "load_loop n i s = load_loop n (Suc i) ?s"
      using lt by (subst load_loop.simps) (simp add: window_readincr_Cons [OF Cons])
    have d: "d = n - Suc i" using Suc.prems by simp
    have l: "length (feat_win ?s) < d" using Suc.prems(2) Cons by simp
    from Suc.IH [OF d l] show ?thesis unfolding step by simp
  qed
qed

lemma writeincr_view:
  "same_view n1 n2 s1 s2 \<Longrightarrow> same_view n1 n2 (writeincr v s1) (writeincr v s2)"
  by (simp add: same_view_def writeincr_def)

lemma mac_loop_view:
  "d = n - ic \<Longrightarrow> same_view n1 n2 s1 s2 \<Longrightarrow>
   rel_sum (same_view n1 n2) (\<lambda>p q. fst p = fst q \<and> same_view n1 n2 (snd p) (snd q))
     (mac_loop n ic acc s1) (mac_loop n ic acc s2)"
proof (induction d arbitrary: ic acc s1 s2)
  case 0
  then show ?case by (simp add: mac_loop.simps)
next
  case (Suc d)
  have lt: "ic < n" using Suc.prems by simp
  have w: "w_stream s2 = w_stream s1" and f: "feat_buf s2 = feat_buf s1"
    using Suc.prems(2) by (simp_all add: same_view_def)
  show ?case
  proof (cases "w_stream s1")
    case Nil
    then have "mac_loop n ic acc s1 = Inl s1" "mac_loop n ic acc s2 = Inl s2"
      using lt w by (simp_all add: mac_loop.simps [of n ic] readincr_Nil)
    then show ?thesis using Suc.prems(2) by simp
  next
    case (Cons v rest)
    then have c2: "w_stream s2 = v # rest" using w by simp
    let ?t1 = "s1\<lparr>w_stream := rest, trace := trace s1 @ [RdWeight]\<rparr>"
    let ?t2 = "s2\<lparr>w_stream := rest, trace := trace s2 @ [RdWeight]\<rparr>"
    let ?a = "acc + scast (feat_buf s1 ! ic) * scast v"
    have s1: "mac_loop n ic acc s1 = mac_loop n (Suc ic) ?a ?t1"
      using lt by (subst mac_loop.simps) (simp add: readincr_Cons [OF Cons])
    have s2: "mac_loop n ic acc s2 = mac_loop n (Suc ic) ?a ?t2"
      using lt by (subst mac_loop.simps) (simp add: readincr_Cons [OF c2] f)
    have d: "d = n - Suc ic" using Suc.prems by simp
    have v: "same_view n1 n2 ?t1 ?t2" using Suc.prems(2) by (simp add: same_view_def)
    show ?thesis unfolding s1 s2 by (rule Suc.IH [OF d v])
  qed
qed

lemma fc_loop_view:
  "d = OUT_CH cfg - oc \<Longrightarrow> same_view n1 n2 s1 s2 \<Longrightarrow>
   rel_sum (same_view n1 n2) (same_view n1 n2) (fc_loop cfg oc s1) (fc_loop cfg oc s2)"
proof (induction d arbitrary: oc s1 s2)
  case 0
  then show ?case by (simp add: fc_loop.simps)
next
  case (Suc d)
  have lt: "oc < OUT_CH cfg" using Suc.prems by simp
  have w: "w_stream s2 = w_stream s1"
    using Suc.prems(2) by (simp add: same_view_def)
  show ?case
  proof (cases "w_stream s1")
    case Nil
    then have "fc_loop cfg oc s1 = Inl s1" "fc_loop cfg oc s2 = Inl s2"
      using lt w by (simp_all add: fc_loop.simps [of cfg oc] readincr_Nil)
    then show ?thesis using Suc.prems(2) by simp
  next
    case (Cons b rest)
    then have c2: "w_stream s2 = b # rest" using w by simp
    let ?t1 = "s1\<lparr>w_stream := rest, trace := trace s1 @ [RdWeight]\<rparr>"
    let ?t2 = "s2\<lparr>w_stream := rest, trace := trace s2 @ [RdWeight]\<rparr>"
    have v: "same_view n1 n2 ?t1 ?t2" using Suc.prems(2) by (simp add: same_view_def)
    have m: "rel_sum (same_view n1 n2) (\<lambda>p q. fst p = fst q \<and> same_view n1 n2 (snd p) (snd q))
       (mac_loop (IN_CH cfg) 0 (scast b) ?t1) (mac_loop (IN_CH cfg) 0 (scast b) ?t2)"
      by (rule mac_loop_view [OF refl v])
    show ?thesis
    proof (cases "mac_loop (IN_CH cfg) 0 (scast b) ?t1")
      case (Inl b1)
      with m obtain b2 where i2: "mac_loop (IN_CH cfg) 0 (scast b) ?t2 = Inl b2"
        and r: "same_view n1 n2 b1 b2"
        by (cases "mac_loop (IN_CH cfg) 0 (scast b) ?t2") auto
      have "fc_loop cfg oc s1 = Inl b1"
        using lt by (subst fc_loop.simps) (simp add: readincr_Cons [OF Cons] Inl)
      moreover have "fc_loop cfg oc s2 = Inl b2"
        using lt by (subst fc_loop.simps) (simp add: readincr_Cons [OF c2] i2)
      ultimately show ?thesis using r by simp
    next
      case (Inr p)
      with m obtain q where i2: "mac_loop (IN_CH cfg) 0 (scast b) ?t2 = Inr q"
        and a: "fst p = fst q" and r: "same_view n1 n2 (snd p) (snd q)"
        by (cases "mac_loop (IN_CH cfg) 0 (scast b) ?t2") auto
      let ?v = "sat_q15 (signed_drop_bit (SHIFT cfg) (fst p))"
      have s1: "fc_loop cfg oc s1 = fc_loop cfg (Suc oc) (writeincr ?v (snd p))"
        using lt by (subst fc_loop.simps) (simp add: readincr_Cons [OF Cons] Inr split_beta)
      have s2: "fc_loop cfg oc s2 = fc_loop cfg (Suc oc) (writeincr ?v (snd q))"
        using lt by (subst fc_loop.simps) (simp add: readincr_Cons [OF c2] i2 a split_beta)
      have d: "d = OUT_CH cfg - Suc oc" using Suc.prems by simp
      show ?thesis
        unfolding s1 s2 by (rule Suc.IH [OF d writeincr_view [OF r]])
    qed
  qed
qed

lemma padding_phase_view:
  "same_view n1 n2 s1 s2 \<Longrightarrow> same_view n1 n2 (padding_phase cfg s1) (padding_phase cfg s2)"
  by (simp add: same_view_def padding_phase_eq)

text \<open>
  C10. Two invocations with the same configuration, the same feature channel and the
  same weight channel append the same values to the output stream and end the same way
  (returned or suspended), whatever the scratch array held before, provided it has its
  declared size \<open>IN_CH\<close>. Whenever the load phase completes, the scratch array holds the
  first \<open>IN_CH\<close> values of the feature channel and nothing of its earlier contents.
\<close>

theorem scratch_buffer_irrelevant:
  assumes "feat_win s1 = feat_win s2" and "w_stream s1 = w_stream s2"
    and "length (feat_buf s1) = IN_CH cfg" and "length (feat_buf s2) = IN_CH cfg"
  shows "emitted s1 (head_kernel cfg s1) = emitted s2 (head_kernel cfg s2)
     \<and> isl (head_kernel cfg s1) = isl (head_kernel cfg s2)
     \<and> (\<forall>a. load_phase cfg s1 = Inr a \<longrightarrow> feat_buf a = take (IN_CH cfg) (feat_win s1))"
proof (cases "IN_CH cfg \<le> length (feat_win s1)")
  case False
  then have l1: "length (feat_win s1) < IN_CH cfg - 0" and l2: "length (feat_win s2) < IN_CH cfg - 0"
    using assms(1) by simp_all
  from load_loop_starves [OF refl l1] obtain b1
    where b1: "load_phase cfg s1 = Inl b1" "out_stream b1 = out_stream s1"
    unfolding load_phase_def by blast
  from load_loop_starves [OF refl l2] obtain b2
    where b2: "load_phase cfg s2 = Inl b2" "out_stream b2 = out_stream s2"
    unfolding load_phase_def by blast
  show ?thesis
    using b1 b2 by (simp add: head_kernel_def emitted_def reached_def)
next
  case True
  let ?n1 = "length (out_stream s1)" and ?n2 = "length (out_stream s2)"
  let ?a1 = "s1\<lparr>feat_win := drop (IN_CH cfg) (feat_win s1),
            feat_buf := take (IN_CH cfg) (feat_win s1),
            trace := trace s1 @ replicate (IN_CH cfg) RdFeat\<rparr>"
  let ?a2 = "s2\<lparr>feat_win := drop (IN_CH cfg) (feat_win s2),
            feat_buf := take (IN_CH cfg) (feat_win s2),
            trace := trace s2 @ replicate (IN_CH cfg) RdFeat\<rparr>"
  have l1: "load_phase cfg s1 = Inr ?a1"
    using True assms(3) by (rule load_phase_returns)
  have l2: "load_phase cfg s2 = Inr ?a2"
    using True assms(1,4) by (intro load_phase_returns) simp_all
  have v: "same_view ?n1 ?n2 ?a1 ?a2"
    using assms(1,2) by (simp add: same_view_def)
  have c: "rel_sum (same_view ?n1 ?n2) (same_view ?n1 ?n2)
      (compute_phase cfg ?a1) (compute_phase cfg ?a2)"
    unfolding compute_phase_def by (rule fc_loop_view [OF refl v])
  have "emitted s1 (head_kernel cfg s1) = emitted s2 (head_kernel cfg s2)
     \<and> isl (head_kernel cfg s1) = isl (head_kernel cfg s2)"
  proof (cases "compute_phase cfg ?a1")
    case (Inl b1)
    with c obtain b2 where i2: "compute_phase cfg ?a2 = Inl b2" and r: "same_view ?n1 ?n2 b1 b2"
      by (cases "compute_phase cfg ?a2") auto
    show ?thesis
      using r by (simp add: head_kernel_def l1 l2 Inl i2 emitted_def reached_def same_view_def)
  next
    case (Inr t1)
    with c obtain t2 where i2: "compute_phase cfg ?a2 = Inr t2" and r: "same_view ?n1 ?n2 t1 t2"
      by (cases "compute_phase cfg ?a2") auto
    from padding_phase_view [OF r, of cfg]
    show ?thesis
      by (simp add: head_kernel_def l1 l2 Inr i2 emitted_def reached_def same_view_def)
  qed
  then show ?thesis by (simp add: l1)
qed

theorem scratch_buffer_irrelevant_witness:
  "feat_win known_state = feat_win (known_state\<lparr>out_stream := [5], feat_buf := [7, 9]\<rparr>)
   \<and> w_stream known_state = w_stream (known_state\<lparr>out_stream := [5], feat_buf := [7, 9]\<rparr>)
   \<and> length (feat_buf known_state) = IN_CH known_config
   \<and> length (feat_buf (known_state\<lparr>out_stream := [5], feat_buf := [7, 9]\<rparr>)) = IN_CH known_config
   \<and> emitted (known_state\<lparr>out_stream := [5], feat_buf := [7, 9]\<rparr>)
        (head_kernel known_config (known_state\<lparr>out_stream := [5], feat_buf := [7, 9]\<rparr>)) = [180, 0]
   \<and> (\<exists>a. load_phase known_config known_state = Inr a \<and> feat_buf a = [10, 20])"
proof -
  let ?s2 = "known_state\<lparr>out_stream := [5], feat_buf := [7, 9]\<rparr>"
  have h1: "feat_win known_state = feat_win ?s2" and h2: "w_stream known_state = w_stream ?s2"
    and h3: "length (feat_buf known_state) = IN_CH known_config"
    and h4: "length (feat_buf ?s2) = IN_CH known_config"
    by (simp_all add: known_state_def known_config_def)
  note t = scratch_buffer_irrelevant [OF h1 h2 h3 h4]
  have e: "emitted known_state (head_kernel known_config known_state) = [180, 0]"
    by (simp add: known_run emitted_def reached_def) (simp add: known_state_def)
  have l: "load_phase known_config known_state = Inr
     (known_state\<lparr>feat_win := drop (IN_CH known_config) (feat_win known_state),
            feat_buf := take (IN_CH known_config) (feat_win known_state),
            trace := trace known_state @ replicate (IN_CH known_config) RdFeat\<rparr>)"
    by (rule load_phase_returns) (simp_all add: known_state_def known_config_def)
  from t l have "feat_buf (known_state\<lparr>feat_win := drop (IN_CH known_config) (feat_win known_state),
            feat_buf := take (IN_CH known_config) (feat_win known_state),
            trace := trace known_state @ replicate (IN_CH known_config) RdFeat\<rparr>)
       = take (IN_CH known_config) (feat_win known_state)"
    by blast
  with l have "\<exists>a. load_phase known_config known_state = Inr a \<and> feat_buf a = [10, 20]"
    by (simp add: known_state_def known_config_def)
  moreover from t e have "emitted ?s2 (head_kernel known_config ?s2) = [180, 0]"
    by simp
  ultimately show ?thesis using h1 h2 h3 h4 by blast
qed

section \<open>The values written, over the integers\<close>

lemma sint_sat_q15: "sint (sat_q15 x) = spec_saturate_q15 (sint x)"
  by (simp add: sat_q15_def spec_saturate_q15_def sint_scast_in_range)

lemma sint_shift_right: "sint (signed_drop_bit n (x :: int32)) = sint x div 2 ^ n"
  by (simp add: sint_signed_drop_bit_eq drop_bit_eq_div)

lemma row_sum_is_wrapped_exact:
  "(scast (b :: int16) :: int32)
     + sum_list (map (\<lambda>ic. scast (f ! ic) * scast (w ! (base + ic))) [0..<k])
   = word_of_int (sint b
       + sum_list (map (\<lambda>ic. sint ((f :: int16 list) ! ic) * sint ((w :: int16 list) ! (base + ic))) [0..<k]))"
proof (induction k)
  case 0
  show ?case by (simp only: upt_0 list.map sum_list.Nil add_0_right scast_eq)
next
  case (Suc k)
  have "(scast b :: int32)
          + sum_list (map (\<lambda>ic. scast (f ! ic) * scast (w ! (base + ic))) [0..<Suc k])
      = (scast b + sum_list (map (\<lambda>ic. scast (f ! ic) * scast (w ! (base + ic))) [0..<k]))
          + scast (f ! k) * scast (w ! (base + k))"
    by (simp add: add.assoc)
  also have "\<dots> = word_of_int (sint b
          + sum_list (map (\<lambda>ic. sint (f ! ic) * sint (w ! (base + ic))) [0..<k]))
        + word_of_int (sint (f ! k) * sint (w ! (base + k)))"
    by (simp only: Suc.IH) (simp only: scast_mult_int32)
  also have "\<dots> = word_of_int (sint b
          + sum_list (map (\<lambda>ic. sint (f ! ic) * sint (w ! (base + ic))) [0..<Suc k]))"
    by (simp add: add.assoc)
  finally show ?case .
qed

lemma kernel_row_acc_wrapped:
  "kernel_row_acc n f w oc = word_of_int (spec_row_sum n f w oc n)"
  unfolding kernel_row_acc_def spec_row_sum_def by (rule row_sum_is_wrapped_exact)

lemma kernel_fc_value_exact:
  assumes "- (2 ^ 31) \<le> spec_row_sum (IN_CH cfg) f w oc (IN_CH cfg)"
    and "spec_row_sum (IN_CH cfg) f w oc (IN_CH cfg) < 2 ^ 31"
  shows "sint (kernel_fc_value cfg f w oc) = spec_output cfg f w oc"
proof -
  have "sint (kernel_row_acc (IN_CH cfg) f w oc) = spec_row_sum (IN_CH cfg) f w oc (IN_CH cfg)"
    unfolding kernel_row_acc_wrapped by (rule sint_word_of_int_int32 [OF assms])
  then show ?thesis
    by (simp only: kernel_fc_value_def spec_output_def sint_sat_q15 sint_shift_right)
qed

text \<open>
  C1, as amended. For every head configuration with \<open>SHIFT < 32\<close>, every feature channel
  with at least \<open>IN_CH\<close> values and every weight channel with at least
  \<open>OUT_CH * (1 + IN_CH)\<close> values (the scratch array having its declared size \<open>IN_CH\<close>)
  such that, for every row, bias plus the first \<open>k\<close> products lies in the signed 32-bit
  range for every \<open>k \<le> IN_CH\<close>: the load phase and the compute phase return, and the
  compute phase has appended, for \<open>oc = 0, ..., OUT_CH - 1\<close> in this order, the values
  whose integer readings are \<open>saturate_q15 ((bias + sum of feature[ic] * w[ic]) >> SHIFT)\<close>,
  the sum being the exact integer, bias and weights being taken from the weight channel
  row by row, the bias first. In the known-vector scenario the output channel is
  \<open>[180, 0]\<close>.
\<close>

theorem compute_phase_values:
  "(IN_CH cfg \<le> length (feat_win s) \<and> OUT_CH cfg * (1 + IN_CH cfg) \<le> length (w_stream s)
      \<and> length (feat_buf s) = IN_CH cfg \<and> SHIFT cfg < 32
      \<and> (\<forall>oc k. oc < OUT_CH cfg \<and> k \<le> IN_CH cfg \<longrightarrow>
            - (2 ^ 31) \<le> spec_row_sum (IN_CH cfg) (feat_win s) (w_stream s) oc k
            \<and> spec_row_sum (IN_CH cfg) (feat_win s) (w_stream s) oc k < 2 ^ 31) \<longrightarrow>
    (\<exists>s1 s2 vs. load_phase cfg s = Inr s1 \<and> compute_phase cfg s1 = Inr s2
       \<and> out_stream s2 = out_stream s @ vs
       \<and> map sint vs = map (spec_output cfg (feat_win s) (w_stream s)) [0..<OUT_CH cfg]
       \<and> w_stream s2 = drop (OUT_CH cfg * (1 + IN_CH cfg)) (w_stream s)))
   \<and> out_stream (reached (head_kernel known_config known_state)) = [180, 0]"
proof (intro conjI impI)
  assume a: "IN_CH cfg \<le> length (feat_win s) \<and> OUT_CH cfg * (1 + IN_CH cfg) \<le> length (w_stream s)
      \<and> length (feat_buf s) = IN_CH cfg \<and> SHIFT cfg < 32
      \<and> (\<forall>oc k. oc < OUT_CH cfg \<and> k \<le> IN_CH cfg \<longrightarrow>
            - (2 ^ 31) \<le> spec_row_sum (IN_CH cfg) (feat_win s) (w_stream s) oc k
            \<and> spec_row_sum (IN_CH cfg) (feat_win s) (w_stream s) oc k < 2 ^ 31)"
  let ?s1 = "s\<lparr>feat_win := drop (IN_CH cfg) (feat_win s),
            feat_buf := take (IN_CH cfg) (feat_win s),
            trace := trace s @ replicate (IN_CH cfg) RdFeat\<rparr>"
  let ?vs = "map (kernel_fc_value cfg (feat_win s) (w_stream s)) [0..<OUT_CH cfg]"
  have l: "load_phase cfg s = Inr ?s1"
    using a by (simp add: load_phase_returns)
  have c: "OUT_CH cfg * (1 + IN_CH cfg) \<le> length (w_stream ?s1)"
    using a by simp
  let ?s2 = "?s1\<lparr>w_stream := drop (OUT_CH cfg * (1 + IN_CH cfg)) (w_stream ?s1),
            out_stream := out_stream ?s1
              @ map (kernel_fc_value cfg (feat_buf ?s1) (w_stream ?s1)) [0..<OUT_CH cfg],
            trace := trace ?s1 @ concat (replicate (OUT_CH cfg) (row_events (IN_CH cfg)))\<rparr>"
  have c2: "compute_phase cfg ?s1 = Inr ?s2"
    by (rule compute_phase_returns [OF c])
  have o: "out_stream ?s2 = out_stream s @ ?vs"
    by (simp add: kernel_fc_value_take)
  have w: "w_stream ?s2 = drop (OUT_CH cfg * (1 + IN_CH cfg)) (w_stream s)"
    by simp
  have "sint (kernel_fc_value cfg (feat_win s) (w_stream s) oc)
          = spec_output cfg (feat_win s) (w_stream s) oc"
    if "oc < OUT_CH cfg" for oc
    using a that by (intro kernel_fc_value_exact) auto
  then have v: "map sint ?vs = map (spec_output cfg (feat_win s) (w_stream s)) [0..<OUT_CH cfg]"
    by simp
  from l c2 o w v
  show "\<exists>s1 s2 vs. load_phase cfg s = Inr s1 \<and> compute_phase cfg s1 = Inr s2
       \<and> out_stream s2 = out_stream s @ vs
       \<and> map sint vs = map (spec_output cfg (feat_win s) (w_stream s)) [0..<OUT_CH cfg]
       \<and> w_stream s2 = drop (OUT_CH cfg * (1 + IN_CH cfg)) (w_stream s)"
    by blast
next
  show "out_stream (reached (head_kernel known_config known_state)) = [180, 0]"
    by (simp add: known_run reached_def)
qed


theorem compute_phase_values_witness:
  "IN_CH known_config \<le> length (feat_win known_state)
   \<and> OUT_CH known_config * (1 + IN_CH known_config) \<le> length (w_stream known_state)
   \<and> length (feat_buf known_state) = IN_CH known_config
   \<and> SHIFT known_config < 32
   \<and> spec_row_sum 2 [10, 20] [100, 2, 3] 0 0 = 100
   \<and> spec_row_sum 2 [10, 20] [100, 2, 3] 0 1 = 120
   \<and> spec_row_sum 2 [10, 20] [100, 2, 3] 0 2 = 180
   \<and> (\<exists>s1 s2 vs. load_phase known_config known_state = Inr s1
         \<and> compute_phase known_config s1 = Inr s2
         \<and> out_stream s2 = vs \<and> map sint vs = [180] \<and> w_stream s2 = [])"
proof -
  have e0: "spec_row_sum 2 [10, 20] [100, 2, 3] 0 0 = 100"
    and e1: "spec_row_sum 2 [10, 20] [100, 2, 3] 0 1 = 120"
    and e2: "spec_row_sum 2 [10, 20] [100, 2, 3] 0 2 = 180"
    by (simp_all add: spec_row_sum_def upt_2)
  have h1: "IN_CH known_config \<le> length (feat_win known_state)"
    and h2: "OUT_CH known_config * (1 + IN_CH known_config) \<le> length (w_stream known_state)"
    and h3: "length (feat_buf known_state) = IN_CH known_config"
    and h4: "SHIFT known_config < 32"
    by (simp_all add: known_config_def known_state_def)
  have r: "- (2 ^ 31) \<le> spec_row_sum (IN_CH known_config) (feat_win known_state)
                (w_stream known_state) oc k
         \<and> spec_row_sum (IN_CH known_config) (feat_win known_state)
                (w_stream known_state) oc k < 2 ^ 31"
    if "oc < OUT_CH known_config \<and> k \<le> IN_CH known_config" for oc k
  proof -
    from that have "oc = 0" and "k \<le> 2" by (simp_all add: known_config_def)
    then have "k = 0 \<or> k = 1 \<or> k = 2" by (auto dest: le_2_cases)
    with \<open>oc = 0\<close> e0 e1 e2 show ?thesis
      by (auto simp: known_config_def known_state_def simp del: One_nat_def)
  qed
  have o: "spec_output known_config (feat_win known_state) (w_stream known_state) 0 = 180"
    using e2 by (simp add: spec_output_def spec_saturate_q15_def known_config_def known_state_def)
  have Q: "\<forall>oc k. oc < OUT_CH known_config \<and> k \<le> IN_CH known_config \<longrightarrow>
            - (2 ^ 31) \<le> spec_row_sum (IN_CH known_config) (feat_win known_state)
                (w_stream known_state) oc k
            \<and> spec_row_sum (IN_CH known_config) (feat_win known_state)
                (w_stream known_state) oc k < 2 ^ 31"
    using r by blast
  have H: "IN_CH known_config \<le> length (feat_win known_state)
      \<and> OUT_CH known_config * (1 + IN_CH known_config) \<le> length (w_stream known_state)
      \<and> length (feat_buf known_state) = IN_CH known_config \<and> SHIFT known_config < 32
      \<and> (\<forall>oc k. oc < OUT_CH known_config \<and> k \<le> IN_CH known_config \<longrightarrow>
            - (2 ^ 31) \<le> spec_row_sum (IN_CH known_config) (feat_win known_state)
                (w_stream known_state) oc k
            \<and> spec_row_sum (IN_CH known_config) (feat_win known_state)
                (w_stream known_state) oc k < 2 ^ 31)"
    using h1 h2 h3 h4 Q by (intro conjI)
  from compute_phase_values [of known_config known_state, THEN conjunct1, THEN mp, OF H]
  obtain s1 s2 vs where t1: "load_phase known_config known_state = Inr s1"
    and t2: "compute_phase known_config s1 = Inr s2"
    and t3: "out_stream s2 = out_stream known_state @ vs"
    and t4: "map sint vs = map (spec_output known_config (feat_win known_state)
           (w_stream known_state)) [0..<OUT_CH known_config]"
    and t5: "w_stream s2 = drop (OUT_CH known_config * (1 + IN_CH known_config)) (w_stream known_state)"
    by (elim exE conjE)
  have "out_stream s2 = vs" using t3 by (simp add: known_state_def)
  moreover have "map sint vs = [180]" using t4 o by (simp add: known_config_def)
  moreover have "w_stream s2 = []" using t5 by (simp add: known_config_def known_state_def)
  ultimately have "\<exists>s1 s2 vs. load_phase known_config known_state = Inr s1
         \<and> compute_phase known_config s1 = Inr s2
         \<and> out_stream s2 = vs \<and> map sint vs = [180] \<and> w_stream s2 = []"
    using t1 t2 by (intro exI [of _ s1] exI [of _ s2] exI [of _ vs]) simp
  then show ?thesis
    using h1 h2 h3 h4 e0 e1 e2 by (intro conjI)
qed

lemma overflow_config_fields:
  "IN_CH overflow_config = 2" "OUT_CH overflow_config = 1"
  "OUT_CH_PAD overflow_config = 1" "SHIFT overflow_config = 0"
  by (simp_all add: overflow_config_def)

lemma overflow_run:
  "out_stream (reached (head_kernel overflow_config overflow_input)) = [- 32768]"
proof -
  have a: "kernel_row_acc 2 [- 32768, - 32768] [0, - 32768, - 32768] 0 = - 2147483648"
    by (simp add: kernel_row_acc_def upt_2)
  have v: "kernel_fc_value overflow_config [- 32768, - 32768] [0, - 32768, - 32768] 0 = - 32768"
    by (simp add: kernel_fc_value_def overflow_config_fields a sat_q15_def)
  have h: "IN_CH overflow_config \<le> length (feat_win overflow_input)"
    "OUT_CH overflow_config * (1 + IN_CH overflow_config) \<le> length (w_stream overflow_input)"
    "length (feat_buf overflow_input) = IN_CH overflow_config"
    by (simp_all add: overflow_config_fields overflow_input_def)
  have "out_stream (reached (head_kernel overflow_config overflow_input))
      = out_stream overflow_input
          @ map (kernel_fc_value overflow_config (feat_win overflow_input)
                   (w_stream overflow_input)) [0..<OUT_CH overflow_config]
          @ replicate (OUT_CH_PAD overflow_config - OUT_CH overflow_config) 0"
    unfolding head_kernel_returns [OF h] by (simp add: reached_def)
  also have "\<dots> = [- 32768]"
    by (simp add: overflow_config_fields) (simp add: overflow_input_def v)
  finally show ?thesis .
qed

text \<open>
  C1 as stated fails: with two features of \<open>-32768\<close>, the weight row
  \<open>[0, -32768, -32768]\<close> and no shift, the channels are long enough and the exact sum is
  \<open>2147483648\<close>, whose saturation is \<open>32767\<close>; the kernel writes \<open>-32768\<close>.
\<close>

theorem compute_phase_overflow:
  "IN_CH overflow_config \<le> length (feat_win overflow_input)
   \<and> OUT_CH overflow_config * (1 + IN_CH overflow_config) \<le> length (w_stream overflow_input)
   \<and> length (feat_buf overflow_input) = IN_CH overflow_config
   \<and> out_stream (reached (head_kernel overflow_config overflow_input)) = [- 32768]
   \<and> sint (- 32768 :: int16) = - 32768
   \<and> spec_output overflow_config (feat_win overflow_input) (w_stream overflow_input) 0 = 32767"
proof -
  have "spec_row_sum 2 [- 32768, - 32768] [0, - 32768, - 32768] 0 2 = 2147483648"
    by (simp add: spec_row_sum_def upt_2)
  then have "spec_output overflow_config (feat_win overflow_input) (w_stream overflow_input) 0
      = 32767"
    by (simp add: spec_output_def spec_saturate_q15_def overflow_config_fields overflow_input_def)
  then show ?thesis
    by (simp add: overflow_run overflow_config_fields) (simp add: overflow_input_def)
qed

section \<open>The movers\<close>

lemma unat_succ: "(i :: uint) < n \<Longrightarrow> unat (i + 1) = Suc (unat i)"
proof -
  assume "i < n"
  then have "unat i < unat n" by (rule unat_mono)
  moreover have "unat n < 2 ^ LENGTH(32)" by (rule unsigned_less)
  ultimately have "unat i + unat (1 :: uint) < 2 ^ LENGTH(32)" by simp
  then have "unat (i + 1) = unat i + unat (1 :: uint)" by (rule unat_add_lem [THEN iffD1])
  then show ?thesis by simp
qed

lemma unat_index:
  fixes st i n :: uint
  assumes "unat i < unat n" and "unat st + unat n \<le> 2 ^ 32"
  shows "unat (st + i) = unat st + unat i"
proof -
  have "unat st + unat i < 2 ^ LENGTH(32)" using assms by simp
  then show ?thesis by (rule unat_add_lem [THEN iffD1])
qed

lemma feat_mover_loop_returns:
  "unat i + d = unat n \<Longrightarrow> unat st + unat n \<le> length (mem s) \<Longrightarrow>
   unat st + unat n \<le> 2 ^ 32 \<Longrightarrow>
   feat_mover_loop n st i s =
     Inr (s\<lparr>strm := strm s @ take d (drop (unat st + unat i) (mem s))\<rparr>)"
proof (induction d arbitrary: i s)
  case 0
  then have "\<not> i < n" by (simp add: word_less_nat_alt)
  then show ?case by (subst feat_mover_loop.simps) simp
next
  case (Suc d)
  have ui: "unat i < unat n" using Suc.prems(1) by simp
  then have lt: "i < n" by (simp add: word_less_nat_alt)
  have a: "unat (st + i) = unat st + unat i" by (rule unat_index [OF ui Suc.prems(3)])
  have b: "unat st + unat i < length (mem s)" using ui Suc.prems(2) by simp
  let ?s = "s\<lparr>strm := strm s @ [mem s ! (unat st + unat i)]\<rparr>"
  have step: "feat_mover_loop n st i s = feat_mover_loop n st (i + 1) ?s"
    using lt b by (subst feat_mover_loop.simps) (simp add: a)
  have d: "unat (i + 1) + d = unat n" using Suc.prems(1) by (simp add: unat_succ [OF lt])
  have m: "unat st + unat n \<le> length (mem ?s)" using Suc.prems(2) by simp
  have sl: "take (Suc d) (drop (unat st + unat i) (mem s))
      = mem s ! (unat st + unat i) # take d (drop (Suc (unat st + unat i)) (mem s))"
    using b by (simp add: Cons_nth_drop_Suc [symmetric])
  show ?case
    unfolding step Suc.IH [OF d m Suc.prems(3)]
    by (simp add: unat_succ [OF lt] sl)
qed

lemma output_mover_loop_returns:
  "unat i + d = unat n \<Longrightarrow> d \<le> length (strm s) \<Longrightarrow>
   unat st + unat n \<le> length (mem s) \<Longrightarrow> unat st + unat n \<le> 2 ^ 32 \<Longrightarrow>
   output_mover_loop n st i s =
     Inr (s\<lparr>strm := drop d (strm s),
            mem := take (unat st + unat i) (mem s) @ take d (strm s)
                     @ drop (unat st + unat i + d) (mem s)\<rparr>)"
proof (induction d arbitrary: i s)
  case 0
  then have "\<not> i < n" by (simp add: word_less_nat_alt)
  then show ?case by (subst output_mover_loop.simps) simp
next
  case (Suc d)
  from Suc.prems(2) obtain v rest where c: "strm s = v # rest"
    by (cases "strm s") auto
  have ui: "unat i < unat n" using Suc.prems(1) by simp
  then have lt: "i < n" by (simp add: word_less_nat_alt)
  have a: "unat (st + i) = unat st + unat i" by (rule unat_index [OF ui Suc.prems(4)])
  have b: "unat st + unat i < length (mem s)" using ui Suc.prems(3) by simp
  let ?a = "unat st + unat i"
  let ?s = "s\<lparr>strm := rest, mem := (mem s)[?a := v]\<rparr>"
  have step: "output_mover_loop n st i s = output_mover_loop n st (i + 1) ?s"
    using lt b by (subst output_mover_loop.simps) (simp add: a c)
  have d: "unat (i + 1) + d = unat n" using Suc.prems(1) by (simp add: unat_succ [OF lt])
  have l: "d \<le> length (strm ?s)" using Suc.prems(2) c by simp
  have m: "unat st + unat n \<le> length (mem ?s)" using Suc.prems(3) by simp
  have t: "take (Suc ?a) ((mem s)[?a := v]) = take ?a (mem s) @ [v]"
    using b by (simp add: take_Suc_conv_app_nth)
  show ?case
    unfolding step Suc.IH [OF d l m Suc.prems(4)]
    by (simp add: unat_succ [OF lt] c t)
qed

lemma take_drop_nth:
  "m + n \<le> length xs \<Longrightarrow> take n (drop m xs) = map (\<lambda>k. xs ! (m + k)) [0..<n]"
  by (rule nth_equalityI) simp_all


lemma upt_3: "[0..<3] = [0, Suc 0, 2]"
  by (simp add: numeral_3_eq_3 numeral_2_eq_2)

text \<open>
  C6, as amended. When \<open>start_addr + num_words\<close> exceeds neither the length of the buffer
  nor \<open>2 ^ 32\<close>, the memory-to-stream mover returns, the stream is the old stream followed
  by \<open>mem[start_addr], ..., mem[start_addr + num_words - 1]\<close> in this order, it has grown
  by \<open>num_words\<close> entries, and the buffer is unchanged.
\<close>

theorem feat_mover_appends_slice:
  assumes "unat start_addr + unat num_words \<le> length (mem s)"
    and "unat start_addr + unat num_words \<le> 2 ^ 32"
  shows "\<exists>s'. feat_mover s num_words start_addr = Inr s'
     \<and> strm s' = strm s @ map (\<lambda>k. mem s ! (unat start_addr + k)) [0..<unat num_words]
     \<and> length (strm s') = length (strm s) + unat num_words
     \<and> mem s' = mem s"
proof -
  have "feat_mover s num_words start_addr =
      Inr (s\<lparr>strm := strm s @ take (unat num_words) (drop (unat start_addr + unat (0 :: uint)) (mem s))\<rparr>)"
    unfolding feat_mover_def using assms by (intro feat_mover_loop_returns) simp_all
  then show ?thesis
    using assms(1) by (simp add: take_drop_nth)
qed

theorem feat_mover_appends_slice_witness:
  "unat (1 :: uint) + unat (3 :: uint) \<le> length (mem \<lparr>mem = [10, 11, 12, 13, 14], strm = [9]\<rparr>)
   \<and> unat (1 :: uint) + unat (3 :: uint) \<le> (2 :: nat) ^ 32
   \<and> feat_mover \<lparr>mem = [10, 11, 12, 13, 14], strm = [9]\<rparr> 3 1
       = Inr \<lparr>mem = [10, 11, 12, 13, 14], strm = [9, 11, 12, 13]\<rparr>"
proof -
  let ?s = "\<lparr>mem = [10, 11, 12, 13, 14], strm = [9 :: ap_uint128]\<rparr>"
  have h1: "unat (1 :: uint) + unat (3 :: uint) \<le> length (mem ?s)"
    and h2: "unat (1 :: uint) + unat (3 :: uint) \<le> (2 :: nat) ^ 32"
    by simp_all
  from feat_mover_appends_slice [OF h1 h2] obtain s'
    where r: "feat_mover ?s 3 1 = Inr s'"
      and st: "strm s' = strm ?s @ map (\<lambda>k. mem ?s ! (unat (1 :: uint) + k)) [0..<unat (3 :: uint)]"
      and m: "mem s' = mem ?s"
    by blast
  have "strm s' = [9, 11, 12, 13]" using st by (simp add: upt_3)
  moreover have "mem s' = [10, 11, 12, 13, 14]" using m by simp
  ultimately have "s' = \<lparr>mem = [10, 11, 12, 13, 14], strm = [9, 11, 12, 13]\<rparr>" by simp
  with r h1 h2 show ?thesis by simp
qed

lemma wide_mem_length: "length wide_mem = 4294967297"
  by (simp add: wide_mem_def)

lemma wide_mem_nth:
  "wide_mem ! 0 = 0" "wide_mem ! 4294967295 = 0" "wide_mem ! 4294967296 = 1"
  by (simp_all add: wide_mem_def nth_append)

lemma wide_mem_slice: "take 2 (drop 4294967295 wide_mem) = [0, 1]"
  by (simp add: wide_mem_def numeral_2_eq_2)

lemma wide_dst_slice: "take 2 (drop 4294967295 wide_dst) = [0, 0]"
  by (simp add: wide_dst_def numeral_2_eq_2)

lemma wide_dst_update:
  "wide_dst[4294967295 := 0] = wide_dst" "wide_dst[0 := 0] = wide_dst"
  by (simp_all add: wide_dst_def list_update_same_conv)

lemma wide_feat_mover:
  "feat_mover \<lparr>mem = wide_mem, strm = []\<rparr> 2 4294967295
     = Inr \<lparr>mem = wide_mem, strm = [0, 0]\<rparr>"
proof -
  have "feat_mover_loop 2 4294967295 2 \<lparr>mem = wide_mem, strm = [0, 0]\<rparr>
      = Inr \<lparr>mem = wide_mem, strm = [0, 0]\<rparr>"
    by (subst feat_mover_loop.simps) simp
  then have "feat_mover_loop 2 4294967295 1 \<lparr>mem = wide_mem, strm = [0]\<rparr>
      = Inr \<lparr>mem = wide_mem, strm = [0, 0]\<rparr>"
    by (subst feat_mover_loop.simps) (simp add: wide_mem_length wide_mem_nth)
  then have "feat_mover_loop 2 4294967295 0 \<lparr>mem = wide_mem, strm = []\<rparr>
      = Inr \<lparr>mem = wide_mem, strm = [0, 0]\<rparr>"
    by (subst feat_mover_loop.simps) (simp add: wide_mem_length wide_mem_nth)
  then show ?thesis by (simp add: feat_mover_def)
qed

lemma wide_output_mover:
  "output_mover \<lparr>mem = wide_dst, strm = [0, 0]\<rparr> 2 4294967295
     = Inr \<lparr>mem = wide_dst, strm = []\<rparr>"
proof -
  have l: "length wide_dst = 4294967297" by (simp add: wide_dst_def)
  have "output_mover_loop 2 4294967295 2 \<lparr>mem = wide_dst, strm = []\<rparr>
      = Inr \<lparr>mem = wide_dst, strm = []\<rparr>"
    by (subst output_mover_loop.simps) simp
  then have "output_mover_loop 2 4294967295 1 \<lparr>mem = wide_dst, strm = [0]\<rparr>
      = Inr \<lparr>mem = wide_dst, strm = []\<rparr>"
    by (subst output_mover_loop.simps) (simp add: l wide_dst_update)
  then have "output_mover_loop 2 4294967295 0 \<lparr>mem = wide_dst, strm = [0, 0]\<rparr>
      = Inr \<lparr>mem = wide_dst, strm = []\<rparr>"
    by (subst output_mover_loop.simps) (simp add: l wide_dst_update)
  then show ?thesis by (simp add: output_mover_def)
qed

text \<open>
  C6 as stated fails: in a buffer of \<open>2 ^ 32 + 1\<close> words, \<open>start_addr = 2 ^ 32 - 1\<close> and
  \<open>num_words = 2\<close> are within the buffer, but the second index wraps to \<open>0\<close>: the mover
  appends \<open>mem[2 ^ 32 - 1], mem[0]\<close>, which is \<open>[0, 0]\<close>, and not
  \<open>mem[2 ^ 32 - 1], mem[2 ^ 32]\<close>, which is \<open>[0, 1]\<close>.
\<close>

theorem feat_mover_index_wraps:
  "unat (4294967295 :: uint) + unat (2 :: uint) \<le> length wide_mem
   \<and> feat_mover \<lparr>mem = wide_mem, strm = []\<rparr> 2 4294967295
       = Inr \<lparr>mem = wide_mem, strm = [0, 0]\<rparr>
   \<and> [wide_mem ! (unat (4294967295 :: uint) + 0), wide_mem ! (unat (4294967295 :: uint) + 1)]
       = [0, 1]"
  by (simp add: wide_feat_mover wide_mem_length wide_mem_nth)

text \<open>
  C5, as amended. For a source and a destination buffer of the same length and
  \<open>start_addr + num_words\<close> exceeding neither that length nor \<open>2 ^ 32\<close>, the
  memory-to-stream mover on an empty stream followed by the stream-to-memory mover at the
  same \<open>(start_addr, num_words)\<close> both return, the stream is empty again, and the slice
  \<open>[start_addr, start_addr + num_words)\<close> of the destination equals that of the source.
\<close>

theorem mover_round_trip:
  assumes "length dst = length src"
    and "unat start_addr + unat num_words \<le> length src"
    and "unat start_addr + unat num_words \<le> 2 ^ 32"
  shows "\<exists>s1 s2. feat_mover \<lparr>mem = src, strm = []\<rparr> num_words start_addr = Inr s1
     \<and> output_mover \<lparr>mem = dst, strm = strm s1\<rparr> num_words start_addr = Inr s2
     \<and> take (unat num_words) (drop (unat start_addr) (mem s2))
          = take (unat num_words) (drop (unat start_addr) src)
     \<and> strm s2 = []"
proof -
  let ?n = "unat num_words" and ?st = "unat start_addr"
  let ?slice = "take ?n (drop ?st src)"
  let ?s1 = "\<lparr>mem = src, strm = ?slice\<rparr>"
  let ?s2 = "\<lparr>mem = take ?st dst @ ?slice @ drop (?st + ?n) dst, strm = []\<rparr>"
  have len: "length ?slice = ?n" using assms(2) by simp
  have f: "feat_mover \<lparr>mem = src, strm = []\<rparr> num_words start_addr = Inr ?s1"
    unfolding feat_mover_def
    using assms(2,3) by (subst feat_mover_loop_returns [where d = "?n"]) simp_all
  have o: "output_mover \<lparr>mem = dst, strm = strm ?s1\<rparr> num_words start_addr = Inr ?s2"
    unfolding output_mover_def
    using assms len by (subst output_mover_loop_returns [where d = "?n"]) simp_all
  have "take ?n (drop ?st (mem ?s2)) = ?slice"
    using assms len by simp
  with f o show ?thesis by (intro exI [of _ ?s1] exI [of _ ?s2]) simp
qed

theorem mover_round_trip_witness:
  "length [0, 0, 0, 0, 0 :: ap_uint128] = length [10, 11, 12, 13, 14 :: ap_uint128]
   \<and> unat (1 :: uint) + unat (3 :: uint) \<le> length [10, 11, 12, 13, 14 :: ap_uint128]
   \<and> unat (1 :: uint) + unat (3 :: uint) \<le> (2 :: nat) ^ 32
   \<and> (\<exists>s1 s2. feat_mover \<lparr>mem = [10, 11, 12, 13, 14], strm = []\<rparr> 3 1 = Inr s1
       \<and> output_mover \<lparr>mem = [0, 0, 0, 0, 0], strm = strm s1\<rparr> 3 1 = Inr s2
       \<and> take 3 (drop 1 (mem s2)) = [11, 12, 13])"
proof -
  have h1: "length [0, 0, 0, 0, 0 :: ap_uint128] = length [10, 11, 12, 13, 14 :: ap_uint128]"
    and h2: "unat (1 :: uint) + unat (3 :: uint) \<le> length [10, 11, 12, 13, 14 :: ap_uint128]"
    and h3: "unat (1 :: uint) + unat (3 :: uint) \<le> (2 :: nat) ^ 32"
    by simp_all
  from mover_round_trip [OF h1 h2 h3] obtain s1 s2
    where "feat_mover \<lparr>mem = [10, 11, 12, 13, 14], strm = []\<rparr> 3 1 = Inr s1"
      and "output_mover \<lparr>mem = [0, 0, 0, 0, 0], strm = strm s1\<rparr> 3 1 = Inr s2"
      and "take (unat (3 :: uint)) (drop (unat (1 :: uint)) (mem s2))
             = take (unat (3 :: uint)) (drop (unat (1 :: uint)) [10, 11, 12, 13, 14])"
    by blast
  then have "feat_mover \<lparr>mem = [10, 11, 12, 13, 14], strm = []\<rparr> 3 1 = Inr s1
       \<and> output_mover \<lparr>mem = [0, 0, 0, 0, 0], strm = strm s1\<rparr> 3 1 = Inr s2
       \<and> take 3 (drop 1 (mem s2)) = [11, 12, 13]"
    by simp
  then show ?thesis using h1 h2 h3 by blast
qed

text \<open>
  C5 as stated fails on the same buffers: both movers wrap at the second word, the
  destination keeps \<open>[0, 0]\<close> in the slice where the source holds \<open>[0, 1]\<close>.
\<close>

theorem round_trip_index_wraps:
  "length wide_dst = length wide_mem
   \<and> unat (4294967295 :: uint) + unat (2 :: uint) \<le> length wide_mem
   \<and> feat_mover \<lparr>mem = wide_mem, strm = []\<rparr> 2 4294967295
       = Inr \<lparr>mem = wide_mem, strm = [0, 0]\<rparr>
   \<and> output_mover \<lparr>mem = wide_dst, strm = [0, 0]\<rparr> 2 4294967295
       = Inr \<lparr>mem = wide_dst, strm = []\<rparr>
   \<and> take (unat (2 :: uint)) (drop (unat (4294967295 :: uint)) wide_dst) = [0, 0]
   \<and> take (unat (2 :: uint)) (drop (unat (4294967295 :: uint)) wide_mem) = [0, 1]"
  by (simp add: wide_feat_mover wide_output_mover wide_mem_length wide_mem_slice wide_dst_slice)
    (simp add: wide_dst_def)

section \<open>The host: the text file\<close>

lemma newline_not_digit: "newline \<notin> set digit_chars"
  by (simp add: newline_def digit_chars_def)

lemma nat_digits_chars: "set (nat_digits n) \<subseteq> set digit_chars"
proof (induction n rule: nat_digits.induct)
  case (1 n)
  have l: "length digit_chars = 10" by (simp add: digit_chars_def)
  show ?case
  proof (cases "n < 10")
    case True
    then have "digit_chars ! n \<in> set digit_chars" by (simp add: l)
    with True show ?thesis by (subst nat_digits.simps) simp
  next
    case False
    have "digit_chars ! (n mod 10) \<in> set digit_chars" by (simp add: l)
    with False "1.IH" show ?thesis by (subst nat_digits.simps) simp
  qed
qed

lemma newline_not_in_to_string: "newline \<notin> set (to_string k)"
proof -
  have "newline \<notin> set (nat_digits m)" for m
    using nat_digits_chars [of m] newline_not_digit by blast
  moreover have "newline \<noteq> CHR ''-''" by (simp add: newline_def)
  ultimately show ?thesis by (simp add: to_string_def)
qed

lemma count_lines_txt_line: "count_lines (txt_line v) = 1"
proof -
  have "filter (\<lambda>c. c = newline) (to_string (sint v)) = []"
    using newline_not_in_to_string [of "sint v"] by (auto simp: filter_empty_conv)
  then show ?thesis by (simp add: count_lines_def txt_line_def)
qed

lemma count_lines_append: "count_lines (a @ b) = count_lines a + count_lines b"
  by (simp add: count_lines_def)

lemma count_lines_concat: "count_lines (concat (map txt_line xs)) = length xs"
proof (induction xs)
  case Nil
  show ?case by (simp add: count_lines_def)
next
  case (Cons x xs)
  then show ?case by (simp add: count_lines_append count_lines_txt_line)
qed

lemma save_txt_loop_returns:
  "i + d = elems \<Longrightarrow> elems \<le> length buf \<Longrightarrow>
   save_txt_loop buf elems i fout = Inr (fout @ concat (map txt_line (take d (drop i buf))))"
proof (induction d arbitrary: i fout)
  case 0
  then show ?case by (subst save_txt_loop.simps) simp
next
  case (Suc d)
  have lt: "i < elems" and il: "i < length buf" using Suc.prems by simp_all
  have d: "Suc i + d = elems" using Suc.prems(1) by simp
  have sl: "take (Suc d) (drop i buf) = buf ! i # take d (drop (Suc i) buf)"
    using il by (simp add: Cons_nth_drop_Suc [symmetric])
  have "save_txt_loop buf elems i fout
      = save_txt_loop buf elems (Suc i) (fout @ to_string (sint (buf ! i)) @ [newline])"
    using lt il by (subst save_txt_loop.simps) simp
  also note Suc.IH [OF d Suc.prems(2)]
  finally show ?case by (simp add: sl txt_line_def)
qed

lemma save_txt_returns:
  assumes "writable fs path" and "elems \<le> length buf"
  shows "save_txt fs path buf elems = Inr (concat (map txt_line (take elems buf)))"
  using assms by (simp add: save_txt_def save_txt_loop_returns [where d = elems])

lemma out_elems_is_OUT_CH: "out_elems h = OUT_CH (config_of h)"
  by (cases h)
    (simp_all add: pose3d_out_elems_def world_out_elems_def flag_out_elems_def
      pose3d_config_def world_config_def flag_config_def)

text \<open>
  C7, as amended. For every head, when the output file opens and the output buffer has
  the \<open>out_elems\<close> elements \<^verbatim>\<open>main\<close> allocates, the file written consists of one decimal
  integer per line, in index order, for the \<open>OUT_CH\<close> elements of the buffer: 195 lines
  for the pose head, 117 for the world head, 1 for the flag head, which is fewer than
  \<open>OUT_CH_PAD\<close> for each head.
\<close>

theorem host_persists_out_ch:
  assumes "writable fs (out_path data_dir h)" and "length out = out_elems h"
  shows "save_head_output fs data_dir h out = Inr (concat (map txt_line out))
     \<and> count_lines (concat (map txt_line out)) = OUT_CH (config_of h)
     \<and> OUT_CH (config_of h) < OUT_CH_PAD (config_of h)
     \<and> OUT_CH (config_of Pose3d) = 195 \<and> OUT_CH (config_of World) = 117
     \<and> OUT_CH (config_of Flag) = 1"
proof -
  have "OUT_CH (config_of h) < OUT_CH_PAD (config_of h)"
    by (cases h)
      (simp_all add: pose3d_config_def world_config_def flag_config_def
        POSE3D_OUT_CH_PAD_def WORLD_OUT_CH_PAD_def FLAG_OUT_CH_PAD_def)
  then show ?thesis
    using assms
    by (simp add: save_head_output_def save_txt_returns count_lines_concat out_elems_is_OUT_CH
        pose3d_config_def world_config_def flag_config_def
        POSE3D_OUT_CH_def WORLD_OUT_CH_def FLAG_OUT_CH_def)
qed

lemma to_string_0: "to_string 0 = ''0''"
  by (simp add: to_string_def nat_digits.simps digit_chars_def)

theorem host_persists_out_ch_witness:
  "writable open_fs (out_path ''data'' Flag) \<and> length [7 :: int16] = out_elems Flag
   \<and> save_head_output open_fs ''data'' Flag [7] = Inr (''7'' @ [newline])
   \<and> count_lines (''7'' @ [newline]) = 1"
proof -
  have h1: "writable open_fs (out_path ''data'' Flag)"
    and h2: "length [7 :: int16] = out_elems Flag"
    by (simp_all add: open_fs_def flag_out_elems_def FLAG_OUT_CH_def)
  have t: "txt_line (7 :: int16) = ''7'' @ [newline]"
    by (simp add: txt_line_def to_string_def nat_digits.simps digit_chars_def)
  from host_persists_out_ch [OF h1 h2]
  have "save_head_output open_fs ''data'' Flag [7] = Inr (''7'' @ [newline])
     \<and> count_lines (''7'' @ [newline]) = OUT_CH (config_of Flag)"
    by (simp add: t)
  then show ?thesis
    using h1 h2 by (simp add: flag_config_def FLAG_OUT_CH_def)
qed

text \<open>
  C7 as stated fails: for the pose head the buffer holds 195 values and the file has 195
  lines, where \<open>OUT_CH_PAD\<close> is 200.
\<close>

theorem host_drops_padding:
  "writable open_fs (out_path ''data'' Pose3d)
   \<and> length (replicate 195 (0 :: int16)) = out_elems Pose3d
   \<and> save_head_output open_fs ''data'' Pose3d (replicate 195 0)
       = Inr (concat (replicate 195 (''0'' @ [newline])))
   \<and> count_lines (concat (replicate 195 (''0'' @ [newline]))) = 195
   \<and> OUT_CH_PAD (config_of Pose3d) = 200"
proof -
  have t: "txt_line (0 :: int16) = ''0'' @ [newline]"
    by (simp add: txt_line_def to_string_0)
  have w: "writable open_fs (out_path ''data'' Pose3d)"
    by (simp add: open_fs_def)
  have l: "out_elems Pose3d = 195"
    by (simp add: pose3d_out_elems_def POSE3D_OUT_CH_def)
  have s: "save_head_output open_fs ''data'' Pose3d (replicate 195 0)
       = Inr (concat (map txt_line (take 195 (replicate 195 0))))"
    unfolding save_head_output_def out_elems.simps pose3d_out_elems_def POSE3D_OUT_CH_def
    using w by (intro save_txt_returns) simp_all
  have c: "count_lines (concat (map txt_line (replicate 195 (0 :: int16)))) = 195"
    unfolding count_lines_concat by simp
  have p: "OUT_CH_PAD (config_of Pose3d) = 200"
    by (simp add: pose3d_config_def POSE3D_OUT_CH_PAD_def POSE3D_OUT_CH_def)
  show ?thesis
    using w l s c p by (simp add: t)
qed


section \<open>The host: the binary loader\<close>

lemma le16_bytes_of: "le16 (ucast v) (ucast (drop_bit 8 v)) = v"
  unfolding le16_def
  by (rule bit_word_eqI) (auto simp: bit_simps)

lemma decode_encode: "decode_le16 (encode_le16 xs) = xs"
  by (induction xs) (simp_all add: encode_le16_def bytes_of_def le16_bytes_of)

lemma length_encode: "length (encode_le16 xs) = 2 * length xs"
  by (induction xs) (simp_all add: encode_le16_def bytes_of_def)

lemma drop_encode: "drop (2 * k) (encode_le16 xs) = encode_le16 (drop k xs)"
proof (induction xs arbitrary: k)
  case Nil
  show ?case by (simp add: encode_le16_def)
next
  case (Cons x xs)
  show ?case
  proof (cases k)
    case 0
    then show ?thesis by simp
  next
    case (Suc j)
    have "drop (2 * Suc j) (encode_le16 (x # xs)) = drop (2 * j) (encode_le16 xs)"
      by (simp add: encode_le16_def bytes_of_def)
    then show ?thesis using Cons.IH [of j] Suc by simp
  qed
qed

lemma decode_append:
  "even (length xs) \<Longrightarrow> decode_le16 (xs @ ys) = decode_le16 xs @ decode_le16 ys"
  by (induction xs rule: decode_le16.induct) simp_all

lemma store_bytes_whole:
  assumes "length bs = 2 * k" and "k \<le> length buf"
  shows "store_bytes bs buf = Some (decode_le16 bs @ drop k buf)"
proof -
  have "decode_le16 (bs @ drop (length bs) (encode_le16 buf))
      = decode_le16 bs @ decode_le16 (encode_le16 (drop k buf))"
    using assms(1) by (simp add: decode_append drop_encode)
  then show ?thesis
    using assms by (simp add: store_bytes_def decode_encode)
qed

lemma streamsize_of_product:
  assumes "n < 2 ^ 63"
  shows "sint (word_of_nat n :: 64 word) = int n"
proof -
  have "(word_of_nat n :: 64 word) = word_of_int (int n)"
    by simp
  then have "sint (word_of_nat n :: 64 word) = signed_take_bit (LENGTH(64) - 1) (int n)"
    by (simp only: sint_sbintrunc')
  also have "\<dots> = signed_take_bit 63 (int n)"
    by simp
  also have "\<dots> = int n"
  proof -
    have "int n < int (2 ^ 63)" using assms by (simp only: of_nat_less_iff)
    then have "int n < 2 ^ 63" by simp
    moreover have "- (2 ^ 63) \<le> int n" by simp
    ultimately show ?thesis by (simp only: signed_take_bit_int_eq_self_iff)
  qed
  finally show ?thesis .
qed

lemma configured_counts_fit:
  assumes "elems \<in> {pose3d_feat_elems, world_feat_elems, flag_feat_elems,
                     pose3d_w_elems, world_w_elems, flag_w_elems}"
  shows "elems * sizeof_int16 < 2 ^ 63"
proof -
  have "elems \<le> 224835"
    using assms
    by (auto simp: pose3d_feat_elems_def world_feat_elems_def flag_feat_elems_def
        pose3d_w_elems_def world_w_elems_def flag_w_elems_def
        POSE3D_IN_CH_def WORLD_IN_CH_def FLAG_IN_CH_def
        POSE3D_OUT_CH_def WORLD_OUT_CH_def FLAG_OUT_CH_def
        POSE3D_ROW_STRIDE_def WORLD_ROW_STRIDE_def FLAG_ROW_STRIDE_def)
  then show ?thesis by (simp add: sizeof_int16_def)
qed

text \<open>
  C8. For a file that opens and an element count whose size in bytes a
  \<^verbatim>\<open>std::streamsize\<close> holds (as every count \<^verbatim>\<open>main\<close> configures does): if the file
  has fewer than \<open>elems * sizeof(int16_t)\<close> bytes, \<open>load_bin\<close> throws the runtime error
  \<open>File too small: <path> (have <size> bytes, need <needed>)\<close> and the destination is
  untouched; if it has at least that many and the destination has room for \<open>elems\<close>
  elements, \<open>load_bin\<close> returns and the destination holds the little-endian values of
  the first \<open>elems * sizeof(int16_t)\<close> bytes of the file, followed by what it held
  beyond them.
\<close>

theorem load_bin_checks_size:
  assumes "contents fs path = Some bytes" and "elems * sizeof_int16 < 2 ^ 63"
  shows "(length bytes < elems * sizeof_int16 \<longrightarrow>
            load_bin fs path buf elems =
              Inl (Runtime_error (''File too small: '' @ path @ '' (have ''
                     @ to_string (int (length bytes)) @ '' bytes, need ''
                     @ to_string (int (elems * sizeof_int16)) @ '')''), buf))
       \<and> (elems * sizeof_int16 \<le> length bytes \<and> elems \<le> length buf \<longrightarrow>
            load_bin fs path buf elems =
              Inr (decode_le16 (take (elems * sizeof_int16) bytes) @ drop elems buf))"
proof -
  let ?need = "elems * sizeof_int16"
  have n: "sint (word_of_nat ?need :: 64 word) = int ?need"
    using assms(2) by (rule streamsize_of_product)
  have small: "load_bin fs path buf elems =
              Inl (Runtime_error (''File too small: '' @ path @ '' (have ''
                     @ to_string (int (length bytes)) @ '' bytes, need ''
                     @ to_string (int ?need) @ '')''), buf)"
    if "length bytes < ?need"
  proof -
    have "int (length bytes) < int ?need" using that by (simp only: of_nat_less_iff)
    then show ?thesis
      unfolding load_bin_def assms(1) n by (simp add: Let_def del: of_nat_mult)
  qed
  have large: "load_bin fs path buf elems = Inr (decode_le16 (take ?need bytes) @ drop elems buf)"
    if "?need \<le> length bytes" and "elems \<le> length buf"
  proof -
    have "length (take ?need bytes) = 2 * elems"
      using that(1) by (simp add: sizeof_int16_def)
    then have "store_bytes (take ?need bytes) buf
        = Some (decode_le16 (take ?need bytes) @ drop elems buf)"
      using that(2) by (rule store_bytes_whole)
    moreover have "\<not> int (length bytes) < int ?need"
      using that(1) by (simp only: of_nat_less_iff)
    moreover have "nat (int ?need) = ?need" by (rule nat_int)
    ultimately show ?thesis
      unfolding load_bin_def assms(1) n by (simp add: Let_def del: of_nat_mult)
  qed
  from small large show ?thesis by blast
qed

theorem load_bin_checks_size_witness:
  "contents small_fs ''f.bin'' = Some [1, 0, 2]
   \<and> contents exact_fs ''f.bin'' = Some [1, 0, 255, 255, 7]
   \<and> 2 * sizeof_int16 < 2 ^ 63
   \<and> length [1, 0, 2 :: byte] < 2 * sizeof_int16
   \<and> 2 * sizeof_int16 \<le> length [1, 0, 255, 255, 7 :: byte]
   \<and> (2 :: nat) \<le> length [0, 0, 5 :: int16]
   \<and> load_bin small_fs ''f.bin'' [0, 0, 5] 2
       = Inl (Runtime_error ''File too small: f.bin (have 3 bytes, need 4)'', [0, 0, 5])
   \<and> load_bin exact_fs ''f.bin'' [0, 0, 5] 2 = Inr [1, - 1, 5]"
proof -
  have c1: "contents small_fs ''f.bin'' = Some [1, 0, 2]"
    and c2: "contents exact_fs ''f.bin'' = Some [1, 0, 255, 255, 7]"
    by (simp_all add: small_fs_def exact_fs_def)
  have h2: "2 * sizeof_int16 < 2 ^ 63"
    and h3: "(2 :: nat) \<le> length [0, 0, 5 :: int16]"
    by (simp_all add: sizeof_int16_def)
  have s: "length [1, 0, 2 :: byte] < 2 * sizeof_int16"
    and l: "2 * sizeof_int16 \<le> length [1, 0, 255, 255, 7 :: byte]"
    by (simp_all add: sizeof_int16_def)
  have t3: "to_string 3 = ''3''" and t4: "to_string 4 = ''4''"
    by (simp_all add: to_string_def nat_digits.simps digit_chars_def)
  have d: "le16 1 0 = 1" "le16 255 255 = - 1"
    by (simp_all add: le16_def)
  from load_bin_checks_size [OF c1 h2, of "[0, 0, 5]"] s
  have a: "load_bin small_fs ''f.bin'' [0, 0, 5] 2
       = Inl (Runtime_error ''File too small: f.bin (have 3 bytes, need 4)'', [0, 0, 5])"
    by (simp add: sizeof_int16_def t3 t4)
  from load_bin_checks_size [OF c2 h2, of "[0, 0, 5]"] l h3
  have b: "load_bin exact_fs ''f.bin'' [0, 0, 5] 2 = Inr [1, - 1, 5]"
    by (simp add: sizeof_int16_def d)
  from c1 c2 h2 h3 s l a b show ?thesis by blast
qed

end
